theory Spec2Isabelle
  imports Complex_Main
begin

section \<open>RetroCam: the camera lifecycle and the capture pipeline of \<open>src/App.tsx\<close>\<close>

text \<open>
  The component \<open>App\<close> keeps six pieces of React state (\<open>cameraState\<close>,
  \<open>selectedMode\<close>, \<open>filmCount\<close>, \<open>isCapturing\<close>, \<open>capturedImage\<close>,
  \<open>showFlash\<close>) and three refs (\<open>videoRef\<close>, \<open>canvasRef\<close>, \<open>streamRef\<close>).
  Its callbacks are embedded as functions on a record of that state, extended by the part
  of the browser they act on: the media streams with their tracks, the pending
  \<open>startCamera\<close> invocations, the armed timers and the sequence of external calls made
  so far.  The record also keeps, in \<open>statusCalls\<close>, the argument of every call of
  \<open>setCameraState\<close> in order: React commits the state once per turn, so of two calls
  in one turn only the second is ever the committed \<open>cameraState\<close>.  A callback runs against the state of the latest render, so the value a
  closure captured (\<open>filmCount\<close>, \<open>selectedMode\<close>, \<open>capturedImage\<close>) is the value
  of the record's field.
\<close>

subsection \<open>Data\<close>

datatype FilterMode = Natural | Film70s | Sepia | Polaroid

definition filterStyles :: "FilterMode \<Rightarrow> string" where
  "filterStyles m = (case m of
      Natural \<Rightarrow> ''none''
    | Film70s \<Rightarrow> ''contrast(1.1) saturate(1.3) sepia(0.2) brightness(1.05)''
    | Sepia \<Rightarrow> ''sepia(0.8) contrast(1.1) brightness(1.05)''
    | Polaroid \<Rightarrow> ''contrast(1.2) saturate(0.9) brightness(1.1) sepia(0.1)'')"

definition modes :: "FilterMode list" where
  "modes = [Natural, Film70s, Sepia, Polaroid]"

datatype status = Idle | Requesting | Active | Error

text \<open>\<open>interface CameraState { status; error?: string }\<close>: an object literal without
  the \<open>error\<close> key has \<open>errorText = None\<close>.\<close>

record CameraState =
  status :: status
  errorText :: "string option"

text \<open>A track of a \<open>MediaStream\<close> is live until \<open>track.stop()\<close> ends it.\<close>

datatype readyState = Live | Ended

text \<open>The \<open>video\<close> element: the stream bound to it (by the stream's identity) and the
  intrinsic size of its current frame, which is \<open>0\<close> until the metadata of a bound
  stream has loaded.  Assigning \<open>srcObject\<close> resets the element.\<close>

record video =
  srcObject :: "nat option"
  videoWidth :: nat
  videoHeight :: nat

record canvas =
  width :: nat
  height :: nat

text \<open>A value that a promise rejects with or a \<open>catch\<close> receives: an \<open>Error\<close>
  object with its message (a \<open>DOMException\<close> is one), or any other value.\<close>

datatype thrown = ErrorObj string | OtherValue

text \<open>How far an invocation of \<open>startCamera\<close> has come: suspended at
  \<open>await getUserMedia\<close>, suspended at the readiness promise with both listeners
  registered, suspended there after \<open>loadedmetadata\<close> with \<open>video.play()\<close> pending
  and the listeners removed, or finished (returned, or its \<open>catch\<close> block has run).\<close>

datatype phase = AwaitMedia | AwaitReady | AwaitPlay | Settled

text \<open>The callbacks handed to \<open>setTimeout\<close>; a timer is kept with its delay in
  milliseconds.  No timer of the component is ever cleared.\<close>

datatype timer = FlashOff | CapturingOff | InitTimeout nat

text \<open>The calls the component makes on the browser, in the order it makes them.\<close>

datatype effect =
    TrackStop nat nat
  | GetUserMedia nat
  | VideoPlay
  | ConsoleError thrown
  | ToDataURL nat nat "nat list"
  | LinkClick string string

record app =
  cameraState :: CameraState
  selectedMode :: FilterMode
  filmCount :: int
  isCapturing :: bool
  capturedImage :: "string option"
  showFlash :: bool
  videoRef :: "video option"
  canvasRef :: "canvas option"
  streamRef :: "nat option"
  streams :: "nat \<Rightarrow> readyState list"
  nextStream :: nat
  calls :: "phase list"
  timers :: "(nat \<times> timer) list"
  trace :: "effect list"
  statusCalls :: "CameraState list"

text \<open>The state after the first render: the \<open>useState\<close> initial values, the two
  elements mounted (a canvas is 300 by 150 by default), no stream.\<close>

definition initial :: app where
  "initial = \<lparr> cameraState = \<lparr> status = Idle, errorText = None \<rparr>,
      selectedMode = Film70s, filmCount = 24, isCapturing = False,
      capturedImage = None, showFlash = False,
      videoRef = Some \<lparr> srcObject = None, videoWidth = 0, videoHeight = 0 \<rparr>,
      canvasRef = Some \<lparr> width = 300, height = 150 \<rparr>,
      streamRef = None, streams = (\<lambda>_. []), nextStream = 0,
      calls = [], timers = [], trace = [], statusCalls = [] \<rparr>"

subsection \<open>\<open>stopCamera\<close>\<close>

text \<open>
  \<^verbatim>\<open>if (streamRef.current) { getTracks().forEach(track => track.stop()); streamRef.current = null }\<close>
  \<^verbatim>\<open>if (videoRef.current) { videoRef.current.srcObject = null }\<close>
\<close>

definition setSrcObject :: "nat option \<Rightarrow> video \<Rightarrow> video" where
  "setSrcObject so v = v\<lparr> srcObject := so, videoWidth := 0, videoHeight := 0 \<rparr>"

definition stopTracks :: "nat \<Rightarrow> app \<Rightarrow> app" where
  "stopTracks sid s = s\<lparr>
      streams := (streams s)(sid := map (\<lambda>_. Ended) (streams s sid)),
      trace := trace s @ map (TrackStop sid) [0 ..< length (streams s sid)] \<rparr>"

definition stopCamera :: "app \<Rightarrow> app" where
  "stopCamera s =
    (let s1 = (case streamRef s of
                 Some sid \<Rightarrow> (stopTracks sid s)\<lparr> streamRef := None \<rparr>
               | None \<Rightarrow> s)
     in case videoRef s1 of
          Some v \<Rightarrow> s1\<lparr> videoRef := Some (setSrcObject None v) \<rparr>
        | None \<Rightarrow> s1)"

subsection \<open>Mode selection and export\<close>

definition setSelectedMode :: "FilterMode \<Rightarrow> app \<Rightarrow> app" where
  "setSelectedMode m s = s\<lparr> selectedMode := m \<rparr>"

text \<open>\<open>Date.now().toString()\<close> inside the template literal: the decimal digits.\<close>

fun toString :: "nat \<Rightarrow> string" where
  "toString n = (if n < 10 then [''0123456789'' ! n]
                 else toString (n div 10) @ [''0123456789'' ! (n mod 10)])"

declare toString.simps [simp del]

text \<open>\<open>downloadPhoto\<close>: \<open>if (!capturedImage) return\<close>; the empty string is falsy
  as well as \<open>null\<close>.  Otherwise a link to the image, named after the clock, is clicked.\<close>

definition downloadPhoto :: "nat \<Rightarrow> app \<Rightarrow> app" where
  "downloadPhoto now s =
    (case capturedImage s of
       None \<Rightarrow> s
     | Some url \<Rightarrow>
         if url = [] then s
         else s\<lparr> trace := trace s @ [LinkClick (''retrocam-'' @ toString now @ ''.jpg'') url] \<rparr>)"

text \<open>The gallery button: \<open>disabled={!capturedImage}\<close>,
  \<open>onClick={() => capturedImage && downloadPhoto()}\<close>.\<close>

definition galleryClick :: "nat \<Rightarrow> app \<Rightarrow> app" where
  "galleryClick now s =
    (case capturedImage s of
       None \<Rightarrow> s
     | Some url \<Rightarrow> if url = [] then s else downloadPhoto now s)"

subsection \<open>\<open>capturePhoto\<close>\<close>

text \<open>
  The numbers of the source are IEEE 754 doubles.  Every double is a rational, and an
  arithmetic operation on doubles yields the exact result rounded to the nearest double,
  a tie going to the even significand.  \<open>roundDouble\<close> is that rounding for results of
  magnitude below \<open>2^1024\<close> (every number of the grain step is below 266):
  \<open>binade x\<close> is the exponent \<open>e\<close> with \<open>2^e \<le> |x| < 2^(e+1)\<close>, \<open>ulp x\<close> the
  distance of neighbouring doubles there (\<open>2^(e-52)\<close>, and \<open>2^(-1074)\<close> among the
  subnormal ones).
\<close>

function log2floor :: "rat \<Rightarrow> nat" where
  "log2floor x = (if x < 2 then 0 else Suc (log2floor (x / 2)))"
  by pat_completeness auto
termination
proof (relation "measure (\<lambda>x. nat \<lfloor>x\<rfloor>)")
  fix x :: rat assume "\<not> x < 2"
  then have a: "2 \<le> x" by simp
  then have "x / 2 \<le> x - 1" by simp
  then have "\<lfloor>x / 2\<rfloor> \<le> \<lfloor>x - 1\<rfloor>" by (rule floor_mono)
  moreover have "2 \<le> \<lfloor>x\<rfloor>" using a by (simp add: le_floor_iff)
  ultimately show "(x / 2, x) \<in> measure (\<lambda>x. nat \<lfloor>x\<rfloor>)" by simp
qed simp

function log2down :: "rat \<Rightarrow> nat" where
  "log2down x = (if 1 \<le> x \<or> x \<le> 0 then 0 else Suc (log2down (2 * x)))"
  by pat_completeness auto
termination
proof (relation "measure (\<lambda>x. nat \<lceil>1 / x\<rceil>)")
  fix x :: rat assume "\<not> (1 \<le> x \<or> x \<le> 0)"
  then have x: "0 < x" "x < 1" by simp_all
  define N where "N = \<lceil>1 / x\<rceil>"
  have q: "1 / x \<le> of_int N" by (simp add: N_def)
  have "1 < 1 / x" using x by simp
  then have "1 < N" unfolding N_def by (simp add: less_ceiling_iff)
  then have "of_int N \<le> (2 * of_int (N - 1) :: rat)" by simp
  then have "1 / x \<le> 2 * of_int (N - 1)" using q by linarith
  then have "1 / (2 * x) \<le> of_int (N - 1)" using x by (simp add: field_simps)
  then have "\<lceil>1 / (2 * x)\<rceil> \<le> N - 1" by (simp add: ceiling_less_iff)
  then show "(2 * x, x) \<in> measure (\<lambda>x. nat \<lceil>1 / x\<rceil>)"
    using \<open>1 < N\<close> x unfolding N_def by simp
qed simp

declare log2floor.simps [simp del] log2down.simps [simp del]

definition pow2 :: "int \<Rightarrow> rat" where
  "pow2 e = (if 0 \<le> e then 2 ^ nat e else 1 / 2 ^ nat (- e))"

definition binade :: "rat \<Rightarrow> int" where
  "binade x = (if 1 \<le> \<bar>x\<bar> then int (log2floor \<bar>x\<bar>) else - int (log2down \<bar>x\<bar>))"

definition roundHalfEven :: "rat \<Rightarrow> int" where
  "roundHalfEven z =
    (let f = \<lfloor>z\<rfloor> in
       if z < of_int f + 1/2 then f
       else if z > of_int f + 1/2 then f + 1
       else if even f then f else f + 1)"

definition ulp :: "rat \<Rightarrow> rat" where
  "ulp x = pow2 (max (binade x) (- 1022) - 52)"

definition roundDouble :: "rat \<Rightarrow> rat" where
  "roundDouble x = (if x = 0 then 0 else of_int (roundHalfEven (x / ulp x)) * ulp x)"

text \<open>
  A \<open>Uint8ClampedArray\<close> holds numbers \<open>0..255\<close>.  Storing a number converts it by
  \<open>ToUint8Clamp\<close>: clamp to \<open>[0, 255]\<close>, then round to the nearest integer, a tie
  going to the even one.
\<close>

definition toUint8Clamp :: "rat \<Rightarrow> nat" where
  "toUint8Clamp x =
    (let clamped = min (max x 0) 255; f = \<lfloor>clamped\<rfloor> in
       if clamped < of_int f + 1/2 then nat f
       else if clamped > of_int f + 1/2 then nat (f + 1)
       else if even f then nat f else nat (f + 1))"

text \<open>\<open>data[j] += noise\<close>: the sum of two doubles, stored.  A write past the end of
  a typed array is ignored.\<close>

definition addNoise :: "nat list \<Rightarrow> nat \<Rightarrow> rat \<Rightarrow> nat list" where
  "addNoise data j noise =
    (if j < length data
     then data[j := toUint8Clamp (roundDouble (of_nat (data ! j) + noise))]
     else data)"

text \<open>
  \<^verbatim>\<open>for (let i = 0; i < data.length; i += 4) {\<close>
  \<^verbatim>\<open>  const noise = (Math.random() - 0.5) * 20;\<close>
  \<^verbatim>\<open>  data[i] += noise; data[i + 1] += noise; data[i + 2] += noise; }\<close>
  \<open>rnd k\<close> is what the \<open>k\<close>-th call of \<open>Math.random()\<close> returns, \<open>noiseOf r\<close> the
  value of \<open>(r - 0.5) * 20\<close>, a subtraction and a multiplication of doubles; the loop
  returns the array and the number of calls made so far.
\<close>

definition noiseOf :: "rat \<Rightarrow> rat" where
  "noiseOf r = roundDouble (roundDouble (r - 1/2) * 20)"

function grainLoop :: "(nat \<Rightarrow> rat) \<Rightarrow> nat \<Rightarrow> nat \<Rightarrow> nat list \<Rightarrow> nat list \<times> nat" where
  "grainLoop rnd k i data =
    (if i < length data then
       let noise = noiseOf (rnd k) in
       grainLoop rnd (Suc k) (i + 4)
         (addNoise (addNoise (addNoise data i noise) (i + 1) noise) (i + 2) noise)
     else (data, k))"
  by pat_completeness auto
termination
  by (relation "measure (\<lambda>(rnd, k, i, data). length data - i)") (auto simp: addNoise_def)

declare grainLoop.simps [simp del]

definition grain :: "(nat \<Rightarrow> rat) \<Rightarrow> nat list \<Rightarrow> nat list" where
  "grain rnd data = fst (grainLoop rnd 0 0 data)"

text \<open>
  What the browser answers during one run of \<open>capturePhoto\<close>: whether
  \<open>canvas.getContext('2d')\<close> gives a context, the RGBA bytes that \<open>getImageData\<close>
  reads back after \<open>drawImage\<close> under a filter on a canvas of a given size, the
  results of \<open>Math.random()\<close>, and the encoder behind \<open>canvas.toDataURL\<close>.
\<close>

record env =
  getContext :: bool
  rendered :: "string \<Rightarrow> nat \<Rightarrow> nat \<Rightarrow> nat list"
  mathRandom :: "nat \<Rightarrow> rat"
  toDataURL :: "nat \<Rightarrow> nat \<Rightarrow> nat list \<Rightarrow> string"

text \<open>A call returns, or throws after the effects made up to the throw.\<close>

datatype completion = Returned app | Threw string app

definition stateOf :: "completion \<Rightarrow> app" where
  "stateOf c = (case c of Returned s \<Rightarrow> s | Threw x s \<Rightarrow> s)"

text \<open>
  \<open>capturePhoto\<close>, line by line.  \<open>getImageData\<close> throws \<open>IndexSizeError\<close> on a
  canvas of width or height \<open>0\<close>, which is the size the canvas takes from a video
  without a frame.
\<close>

definition capturePhoto :: "env \<Rightarrow> app \<Rightarrow> completion" where
  "capturePhoto e s =
    (case videoRef s of None \<Rightarrow> Returned s | Some vid \<Rightarrow>
     case canvasRef s of None \<Rightarrow> Returned s | Some cnv \<Rightarrow>
     if filmCount s \<le> 0 then Returned s
     else
       let s1 = s\<lparr> isCapturing := True, showFlash := True,
                    timers := timers s @ [(150, FlashOff)] \<rparr>
       in if \<not> getContext e then Returned s1
       else
         let w = videoWidth vid; h = videoHeight vid;
             s2 = s1\<lparr> canvasRef := Some (cnv\<lparr> width := w, height := h \<rparr>) \<rparr>
         in if w = 0 \<or> h = 0 then Threw ''IndexSizeError'' s2
         else
           let data = grain (mathRandom e) (rendered e (filterStyles (selectedMode s)) w h);
               dataUrl = toDataURL e w h data
           in Returned (s2\<lparr> capturedImage := Some dataUrl,
                            filmCount := filmCount s - 1,
                            timers := timers s2 @ [(300, CapturingOff)],
                            trace := trace s2 @ [ToDataURL w h data] \<rparr>))"

text \<open>The capture button:
  \<open>disabled={cameraState.status !== 'active' || filmCount <= 0}\<close>,
  \<open>onClick={capturePhoto}\<close>.  A disabled button dispatches no click.\<close>

definition captureClick :: "env \<Rightarrow> app \<Rightarrow> app" where
  "captureClick e s =
    (if status (cameraState s) \<noteq> Active \<or> filmCount s \<le> 0 then s
     else stateOf (capturePhoto e s))"

subsection \<open>\<open>startCamera\<close>\<close>

text \<open>\<open>String.prototype.includes\<close>.\<close>

fun startsWith :: "string \<Rightarrow> string \<Rightarrow> bool" where
  "startsWith s [] = True"
| "startsWith [] (p # ps) = False"
| "startsWith (c # cs) (p # ps) = (c = p \<and> startsWith cs ps)"

fun strIncludes :: "string \<Rightarrow> string \<Rightarrow> bool" where
  "strIncludes [] pat = (pat = [])"
| "strIncludes (c # cs) pat = (startsWith (c # cs) pat \<or> strIncludes cs pat)"

text \<open>The \<open>catch\<close> block of \<open>startCamera\<close>:
  \<open>err instanceof Error ? err.message : 'Unknown error'\<close>, then the object that the
  chain of \<open>if\<close>s hands to \<open>setCameraState\<close>.\<close>

definition errorMessageOf :: "thrown \<Rightarrow> string" where
  "errorMessageOf err = (case err of ErrorObj m \<Rightarrow> m | OtherValue \<Rightarrow> ''Unknown error'')"

definition reported :: "string \<Rightarrow> CameraState" where
  "reported errorMessage =
    (if strIncludes errorMessage ''Permission denied''
        \<or> strIncludes errorMessage ''NotAllowedError'' then
       \<lparr> status = Error, errorText = Some
          ''Camera access denied. Please allow camera permissions and try again.'' \<rparr>
     else if strIncludes errorMessage ''NotFoundError''
        \<or> strIncludes errorMessage ''DevicesNotFoundError'' then
       \<lparr> status = Error, errorText = Some ''No camera found on this device.'' \<rparr>
     else
       \<lparr> status = Error, errorText = Some (''Camera error: '' @ errorMessage) \<rparr>)"

definition catchBlock :: "thrown \<Rightarrow> app \<Rightarrow> app" where
  "catchBlock err s =
    s\<lparr> trace := trace s @ [ConsoleError err],
        cameraState := reported (errorMessageOf err),
        statusCalls := statusCalls s @ [reported (errorMessageOf err)] \<rparr>"

text \<open>
  The synchronous part of \<open>startCamera\<close>, up to \<open>await getUserMedia(...)\<close>:
  \<open>setCameraState({ status: 'requesting' })\<close>, \<open>stopCamera()\<close>, then the expression
  \<open>navigator.mediaDevices.getUserMedia(...)\<close> inside the \<open>try\<close>.  The argument says
  what evaluating that expression does: it returns a promise (\<open>None\<close>) and the
  invocation is suspended, or it throws (\<open>Some err\<close>, a \<open>TypeError\<close> where
  \<open>navigator.mediaDevices\<close> is undefined) and the \<open>catch\<close> block runs in the same
  turn, with no request issued.  The invocation is entered in \<open>calls\<close>; its position
  there identifies it.
\<close>

definition startCamera :: "thrown option \<Rightarrow> app \<Rightarrow> app" where
  "startCamera r s =
    (let s1 = s\<lparr> cameraState := \<lparr> status = Requesting, errorText = None \<rparr>,
                  statusCalls := statusCalls s @ [\<lparr> status = Requesting, errorText = None \<rparr>] \<rparr>;
         s2 = stopCamera s1
     in case r of
          None \<Rightarrow> s2\<lparr> trace := trace s2 @ [GetUserMedia (length (calls s2))],
                       calls := calls s2 @ [AwaitMedia] \<rparr>
        | Some err \<Rightarrow> (catchBlock err s2)\<lparr> calls := calls s2 @ [Settled] \<rparr>)"

text \<open>
  A rejection that reaches the \<open>catch\<close> block of invocation \<open>i\<close> while it is
  suspended.  A promise settles once: on an invocation that has finished this does nothing.
\<close>

definition failCall :: "nat \<Rightarrow> thrown \<Rightarrow> app \<Rightarrow> app" where
  "failCall i err s =
    (if i < length (calls s) \<and> calls s ! i \<noteq> Settled
     then (catchBlock err s)\<lparr> calls := (calls s)[i := Settled] \<rparr>
     else s)"

text \<open>
  \<open>getUserMedia\<close> of invocation \<open>i\<close> resolves with a new stream of \<open>n\<close> live
  tracks: \<open>streamRef.current = stream\<close>; if the video element is there, the stream is
  bound to it, the two listeners are registered and the 5000 ms timer is armed;
  otherwise the function returns.  The check \<open>if (!videoRef.current)\<close> inside the
  promise runs in the same turn as the one around it.
\<close>

definition mediaResolved :: "nat \<Rightarrow> nat \<Rightarrow> app \<Rightarrow> app" where
  "mediaResolved i n s =
    (let sid = nextStream s;
         s1 = s\<lparr> streams := (streams s)(sid := replicate n Live),
                  nextStream := Suc sid, streamRef := Some sid \<rparr>
     in case videoRef s1 of
          None \<Rightarrow> s1\<lparr> calls := (calls s1)[i := Settled] \<rparr>
        | Some v \<Rightarrow>
            let s2 = s1\<lparr> videoRef := Some (setSrcObject (Some sid) v) \<rparr>
            in case videoRef s2 of
                 None \<Rightarrow> failCall i (ErrorObj ''Video element not found'') s2
               | Some vid \<Rightarrow>
                   s2\<lparr> calls := (calls s2)[i := AwaitReady],
                       timers := timers s2 @ [(5000, InitTimeout i)] \<rparr>)"

text \<open>Invocation \<open>i\<close> is in phase \<open>p\<close>.\<close>

definition awaiting :: "app \<Rightarrow> nat \<Rightarrow> phase \<Rightarrow> bool" where
  "awaiting s i p = (i < length (calls s) \<and> calls s ! i = p)"

text \<open>The listeners of invocation \<open>i\<close>; each runs only while registered.\<close>

definition onLoadedMetadata :: "nat \<Rightarrow> app \<Rightarrow> app" where
  "onLoadedMetadata i s =
    (if awaiting s i AwaitReady
     then s\<lparr> calls := (calls s)[i := AwaitPlay], trace := trace s @ [VideoPlay] \<rparr>
     else s)"

definition onError :: "nat \<Rightarrow> app \<Rightarrow> app" where
  "onError i s =
    (if awaiting s i AwaitReady then failCall i (ErrorObj ''Video failed to load'') s else s)"

text \<open>An event of the video element reaches every listener, in the order of registration.\<close>

definition dispatch :: "(nat \<Rightarrow> app \<Rightarrow> app) \<Rightarrow> app \<Rightarrow> app" where
  "dispatch listener s = fold listener [0 ..< length (calls s)] s"

text \<open>\<open>video.play()\<close> of invocation \<open>i\<close> resolves: \<open>resolve()\<close>, and after the
  \<open>await\<close>, \<open>setCameraState({ status: 'active' })\<close>.\<close>

definition playResolved :: "nat \<Rightarrow> app \<Rightarrow> app" where
  "playResolved i s =
    s\<lparr> calls := (calls s)[i := Settled],
        cameraState := \<lparr> status = Active, errorText = None \<rparr>,
        statusCalls := statusCalls s @ [\<lparr> status = Active, errorText = None \<rparr>] \<rparr>"

text \<open>A timer fires.  The callback of the 5000 ms timer removes both listeners and rejects.\<close>

definition fireTimer :: "timer \<Rightarrow> app \<Rightarrow> app" where
  "fireTimer t s =
    (case t of
       FlashOff \<Rightarrow> s\<lparr> showFlash := False \<rparr>
     | CapturingOff \<Rightarrow> s\<lparr> isCapturing := False \<rparr>
     | InitTimeout i \<Rightarrow> failCall i (ErrorObj ''Camera initialization timed out'') s)"

subsection \<open>Executions\<close>

text \<open>
  What can happen to the component: a call of \<open>startCamera\<close> (the buttons START CAMERA,
  TRY AGAIN and the always enabled switch button) or of \<open>stopCamera\<close>, the completion
  of something an invocation of \<open>startCamera\<close> waits for, an event of the video
  element, a timer, and the other three buttons.  A call of \<open>startCamera\<close> comes
  with what \<open>navigator.mediaDevices.getUserMedia(...)\<close> does in it: return a promise
  (\<open>None\<close>) or throw (\<open>Some err\<close>).  \<open>step\<close> is \<open>None\<close> where the event
  cannot happen in the state.
\<close>

datatype event =
    StartCall "thrown option"
  | StopCall
  | MediaResolved nat nat
  | MediaRejected nat thrown
  | LoadedMetadata nat nat
  | VideoError
  | PlayResolved nat
  | PlayRejected nat thrown
  | TimerFires nat
  | CaptureClick env
  | GalleryClick nat
  | ModeClick FilterMode

definition bound :: "app \<Rightarrow> bool" where
  "bound s = (case videoRef s of None \<Rightarrow> False | Some v \<Rightarrow> srcObject v \<noteq> None)"

fun step :: "event \<Rightarrow> app \<Rightarrow> app option" where
  "step (StartCall r) s = Some (startCamera r s)"
| "step StopCall s = Some (stopCamera s)"
| "step (MediaResolved i n) s =
     (if awaiting s i AwaitMedia then Some (mediaResolved i n s) else None)"
| "step (MediaRejected i err) s =
     (if awaiting s i AwaitMedia then Some (failCall i err s) else None)"
| "step (LoadedMetadata w h) s =
     (case videoRef s of
        None \<Rightarrow> None
      | Some v \<Rightarrow>
          if srcObject v = None then None
          else Some (dispatch onLoadedMetadata
                 (s\<lparr> videoRef := Some (v\<lparr> videoWidth := w, videoHeight := h \<rparr>) \<rparr>)))"
| "step VideoError s = (if bound s then Some (dispatch onError s) else None)"
| "step (PlayResolved i) s =
     (if awaiting s i AwaitPlay then Some (playResolved i s) else None)"
| "step (PlayRejected i err) s =
     (if awaiting s i AwaitPlay then Some (failCall i err s) else None)"
| "step (TimerFires k) s =
     (if k < length (timers s)
      then Some (fireTimer (snd (timers s ! k))
                   (s\<lparr> timers := take k (timers s) @ drop (Suc k) (timers s) \<rparr>))
      else None)"
| "step (CaptureClick e) s = Some (captureClick e s)"
| "step (GalleryClick now) s = Some (galleryClick now s)"
| "step (ModeClick m) s = Some (setSelectedMode m s)"

fun run :: "event list \<Rightarrow> app \<Rightarrow> app option" where
  "run [] s = Some s"
| "run (e # es) s = (case step e s of None \<Rightarrow> None | Some s' \<Rightarrow> run es s')"

text \<open>No invocation of \<open>startCamera\<close> is suspended.\<close>

definition quiescent :: "app \<Rightarrow> bool" where
  "quiescent s = (\<forall>p \<in> set (calls s). p = Settled)"

text \<open>A stream is live while one of its tracks is.\<close>

definition live :: "app \<Rightarrow> nat \<Rightarrow> bool" where
  "live s sid = (Live \<in> set (streams s sid))"

text \<open>The event is a call of \<open>startCamera\<close>.\<close>

definition isStart :: "event \<Rightarrow> bool" where
  "isStart e = (case e of StartCall r \<Rightarrow> True | _ \<Rightarrow> False)"

text \<open>The states of the executions in which \<open>startCamera\<close> is called only while no
  earlier invocation of it is still suspended.\<close>

inductive serial :: "app \<Rightarrow> bool" where
  serial_initial: "serial initial"
| serial_step: "serial s \<Longrightarrow> step e s = Some s' \<Longrightarrow> (isStart e \<longrightarrow> quiescent s) \<Longrightarrow> serial s'"

text \<open>The states of all executions.\<close>

inductive reachable :: "app \<Rightarrow> bool" where
  reachable_initial: "reachable initial"
| reachable_step: "reachable s \<Longrightarrow> step e s = Some s' \<Longrightarrow> reachable s'"

text \<open>The video element shows the stream that \<open>streamRef\<close> holds, and has no frame
  size while it shows none.\<close>

definition tidy :: "app \<Rightarrow> bool" where
  "tidy s =
    (case videoRef s of
       None \<Rightarrow> True
     | Some v \<Rightarrow> srcObject v = streamRef s
         \<and> (srcObject v = None \<longrightarrow> videoWidth v = 0 \<and> videoHeight v = 0))"

text \<open>A frame can be captured: the video element has a frame of positive size and the
  canvas is there.\<close>

definition hasFrame :: "app \<Rightarrow> bool" where
  "hasFrame s =
    ((case videoRef s of None \<Rightarrow> False | Some v \<Rightarrow> 0 < videoWidth v \<and> 0 < videoHeight v)
     \<and> canvasRef s \<noteq> None)"

text \<open>The number of images encoded so far.\<close>

definition artifacts :: "app \<Rightarrow> nat" where
  "artifacts s = length (filter (\<lambda>x. case x of ToDataURL w h d \<Rightarrow> True | _ \<Rightarrow> False) (trace s))"

text \<open>An environment for the examples: a context, a grey frame, the sample \<open>0.75\<close>.\<close>

definition sampleEnv :: env where
  "sampleEnv = \<lparr> getContext = True, rendered = (\<lambda>f w h. replicate (4 * w * h) 128),
      mathRandom = (\<lambda>k. 3 / 4), toDataURL = (\<lambda>w h d. ''data:image/jpeg;base64,'') \<rparr>"

text \<open>What holds in every state of a serial execution: a live stream is the one
  \<open>streamRef\<close> holds; only the latest invocation can be suspended; while one waits for
  \<open>getUserMedia\<close> no stream is held; while one is suspended the status is
  \<open>Requesting\<close>.\<close>

definition sound :: "app \<Rightarrow> bool" where
  "sound s =
    ((\<forall>sid. live s sid \<longrightarrow> streamRef s = Some sid)
     \<and> (\<forall>i. Suc i < length (calls s) \<longrightarrow> calls s ! i = Settled)
     \<and> (\<forall>i. awaiting s i AwaitMedia \<longrightarrow> streamRef s = None)
     \<and> (\<not> quiescent s \<longrightarrow> status (cameraState s) = Requesting))"

text \<open>\<open>run\<close>, refusing a call of \<open>startCamera\<close> while an invocation is suspended.\<close>

fun runSerial :: "event list \<Rightarrow> app \<Rightarrow> app option" where
  "runSerial [] s = Some s"
| "runSerial (e # es) s =
     (if isStart e \<and> \<not> quiescent s then None
      else case step e s of None \<Rightarrow> None | Some s' \<Rightarrow> runSerial es s')"

section \<open>Properties\<close>

subsection \<open>What the steps leave alone\<close>

lemmas model_defs = initial_def startCamera_def stopCamera_def stopTracks_def setSrcObject_def
  awaiting_def bound_def mediaResolved_def failCall_def catchBlock_def errorMessageOf_def
  reported_def playResolved_def
  fireTimer_def dispatch_def onLoadedMetadata_def onError_def live_def Let_def

lemma fold_keeps: "(\<And>i s. g (f i s) = g s) \<Longrightarrow> g (fold f xs s) = g s"
  by (induction xs arbitrary: s) simp_all

lemma failCall_keeps [simp]:
  "videoRef (failCall i err s) = videoRef s"
  "canvasRef (failCall i err s) = canvasRef s"
  "streamRef (failCall i err s) = streamRef s"
  "streams (failCall i err s) = streams s"
  "filmCount (failCall i err s) = filmCount s"
  "capturedImage (failCall i err s) = capturedImage s"
  by (simp_all add: failCall_def catchBlock_def Let_def)

lemma dispatch_onLoadedMetadata_keeps [simp]:
  "videoRef (dispatch onLoadedMetadata s) = videoRef s"
  "canvasRef (dispatch onLoadedMetadata s) = canvasRef s"
  "streamRef (dispatch onLoadedMetadata s) = streamRef s"
  "streams (dispatch onLoadedMetadata s) = streams s"
  "filmCount (dispatch onLoadedMetadata s) = filmCount s"
  "capturedImage (dispatch onLoadedMetadata s) = capturedImage s"
  "cameraState (dispatch onLoadedMetadata s) = cameraState s"
  unfolding dispatch_def by (rule fold_keeps, simp add: onLoadedMetadata_def)+

lemma dispatch_onError_keeps [simp]:
  "videoRef (dispatch onError s) = videoRef s"
  "canvasRef (dispatch onError s) = canvasRef s"
  "streamRef (dispatch onError s) = streamRef s"
  "streams (dispatch onError s) = streams s"
  "filmCount (dispatch onError s) = filmCount s"
  "capturedImage (dispatch onError s) = capturedImage s"
  unfolding dispatch_def by (rule fold_keeps, simp add: onError_def)+

lemma reachable_run: "reachable s \<Longrightarrow> run es s = Some s' \<Longrightarrow> reachable s'"
  by (induction es arbitrary: s) (auto split: option.splits intro: reachable_step)

lemma tidy_step: "tidy s \<Longrightarrow> step e s = Some s' \<Longrightarrow> tidy s'"
  by (cases e)
     (auto simp: tidy_def startCamera_def catchBlock_def stopCamera_def stopTracks_def
        setSrcObject_def mediaResolved_def playResolved_def fireTimer_def captureClick_def galleryClick_def
        downloadPhoto_def setSelectedMode_def capturePhoto_def stateOf_def Let_def
        split: option.splits if_splits timer.splits)

lemma tidy_reachable: "reachable s \<Longrightarrow> tidy s"
proof (induction rule: reachable.induct)
  case reachable_initial
  show ?case by (simp add: tidy_def initial_def)
next
  case (reachable_step s e s')
  then show ?case by (blast intro: tidy_step)
qed

subsection \<open>Properties of \<open>stopCamera\<close>, mode selection and export\<close>

lemma stopCamera_idem: "stopCamera (stopCamera s) = stopCamera s"
  by (simp add: stopCamera_def setSrcObject_def stopTracks_def Let_def split: option.splits)

lemma stopCamera_funpow: "(stopCamera ^^ Suc n) s = stopCamera s"
  by (induction n) (simp_all add: stopCamera_idem)

lemma stopCamera_cameraState: "cameraState (stopCamera s) = cameraState s"
  by (simp add: stopCamera_def setSrcObject_def stopTracks_def Let_def split: option.splits)

lemma stopCamera_noop: "tidy s \<Longrightarrow> streamRef s = None \<Longrightarrow> stopCamera s = s"
  by (auto simp: tidy_def stopCamera_def setSrcObject_def split: option.splits)

lemma held_two_tracks:
  "run [StartCall None, MediaResolved 0 2] initial = Some
    (initial\<lparr> cameraState := \<lparr> status = Requesting, errorText = None \<rparr>,
       videoRef := Some \<lparr> srcObject = Some 0, videoWidth = 0, videoHeight = 0 \<rparr>,
       streamRef := Some 0, streams := (\<lambda>_. [])(0 := [Live, Live]), nextStream := 1,
       calls := [AwaitReady], timers := [(5000, InitTimeout 0)], trace := [GetUserMedia 0],
       statusCalls := [\<lparr> status = Requesting, errorText = None \<rparr>] \<rparr>)"
  by (simp add: model_defs numeral_2_eq_2)

text \<open>
  C7.  \<open>stopCamera\<close> always returns, and calling it \<open>n + 1\<close> times in a row, for any
  \<open>n\<close>, leaves the state that one call leaves.  It never changes the camera status.
  In a state of an execution in which no stream is held, it changes nothing at all.
\<close>

theorem stopCamera_idempotent_total:
  "(stopCamera ^^ Suc n) s = stopCamera s
   \<and> cameraState (stopCamera s) = cameraState s
   \<and> (reachable s \<and> streamRef s = None \<longrightarrow> stopCamera s = s)"
  using stopCamera_funpow [of n s] stopCamera_cameraState [of s]
    stopCamera_noop [of s] tidy_reachable [of s]
  by blast

theorem stopCamera_idempotent_total_witness:
  "(stopCamera ^^ 3) (the (run [StartCall None, MediaResolved 0 2] initial))
     = stopCamera (the (run [StartCall None, MediaResolved 0 2] initial))
   \<and> streams (stopCamera (the (run [StartCall None, MediaResolved 0 2] initial))) 0 = [Ended, Ended]
   \<and> status (cameraState (stopCamera (the (run [StartCall None, MediaResolved 0 2] initial))))
       = Requesting
   \<and> reachable initial \<and> streamRef initial = None \<and> stopCamera initial = initial"
proof -
  let ?s = "the (run [StartCall None, MediaResolved 0 2] initial)"
  have a: "(stopCamera ^^ Suc 2) ?s = stopCamera ?s"
    using stopCamera_idempotent_total [of 2 ?s] by blast
  have b: "stopCamera initial = initial"
    using stopCamera_idempotent_total [of 0 initial] reachable_initial
    by (simp add: initial_def)
  have c: "streams (stopCamera ?s) 0 = [Ended, Ended]"
    "status (cameraState (stopCamera ?s)) = Requesting"
    by (simp_all add: held_two_tracks) (simp_all add: model_defs numeral_2_eq_2)
  from a b c show ?thesis
    by (simp add: reachable_initial numeral_3_eq_3) (simp add: initial_def)
qed

text \<open>
  C10.  Selecting a mode, by the button of any mode, sets the selected mode to it and
  leaves every other part of the state as it was: the camera status and its error
  message, the film count, the captured image, the held stream and the tracks of every
  stream.
\<close>

theorem setSelectedMode_frame:
  "step (ModeClick m) s = Some (setSelectedMode m s)
   \<and> setSelectedMode m s = s\<lparr> selectedMode := m \<rparr>
   \<and> selectedMode (setSelectedMode m s) = m
   \<and> cameraState (setSelectedMode m s) = cameraState s
   \<and> filmCount (setSelectedMode m s) = filmCount s
   \<and> capturedImage (setSelectedMode m s) = capturedImage s
   \<and> streamRef (setSelectedMode m s) = streamRef s
   \<and> streams (setSelectedMode m s) = streams s
   \<and> m \<in> set modes"
  by (cases m) (simp_all add: setSelectedMode_def modes_def)

text \<open>
  C9.  While no captured image is held, the export does nothing: \<open>downloadPhoto\<close>
  returns the state unchanged, so no file name is built and no link is clicked (the
  trace of calls is the same), and so does a click on the gallery button.
\<close>

theorem downloadPhoto_without_image:
  "capturedImage s = None \<Longrightarrow>
     downloadPhoto now s = s \<and> galleryClick now s = s \<and> step (GalleryClick now) s = Some s"
  by (simp add: downloadPhoto_def galleryClick_def)

theorem downloadPhoto_without_image_witness:
  "capturedImage initial = None
   \<and> downloadPhoto 1700000000000 initial = initial
   \<and> trace (downloadPhoto 1700000000000 initial) = []
   \<and> step (GalleryClick 1700000000000) initial = Some initial"
  using downloadPhoto_without_image [of initial 1700000000000]
  by (simp add: initial_def)

text \<open>With an image held, the export clicks a link named after the clock.\<close>

lemma downloadPhoto_with_image:
  "capturedImage s = Some url \<Longrightarrow> url \<noteq> [] \<Longrightarrow>
     trace (downloadPhoto now s)
       = trace s @ [LinkClick (''retrocam-'' @ toString now @ ''.jpg'') url]"
  by (simp add: downloadPhoto_def)

subsection \<open>The capture pipeline\<close>

lemma capturePhoto_guard:
  "videoRef s = None \<or> canvasRef s = None \<or> filmCount s \<le> 0 \<Longrightarrow> capturePhoto e s = Returned s"
  by (auto simp: capturePhoto_def split: option.splits)

lemma capturePhoto_taken:
  assumes "videoRef s = Some v" "canvasRef s = Some c" "0 < filmCount s" "getContext e"
    "0 < videoWidth v" "0 < videoHeight v"
  shows "capturePhoto e s = Returned (s\<lparr> isCapturing := True, showFlash := True,
      canvasRef := Some (c\<lparr> width := videoWidth v, height := videoHeight v \<rparr>),
      capturedImage := Some (toDataURL e (videoWidth v) (videoHeight v)
        (grain (mathRandom e) (rendered e (filterStyles (selectedMode s)) (videoWidth v) (videoHeight v)))),
      filmCount := filmCount s - 1,
      timers := timers s @ [(150, FlashOff), (300, CapturingOff)],
      trace := trace s @ [ToDataURL (videoWidth v) (videoHeight v)
        (grain (mathRandom e) (rendered e (filterStyles (selectedMode s)) (videoWidth v) (videoHeight v)))] \<rparr>)"
  using assms by (simp add: capturePhoto_def Let_def)

lemma captureClick_taken:
  assumes "status (cameraState s) = Active" "videoRef s = Some v" "canvasRef s = Some c"
    "0 < videoWidth v" "0 < videoHeight v" "0 < filmCount s" "getContext e"
  shows "captureClick e s = s\<lparr> isCapturing := True, showFlash := True,
      canvasRef := Some (c\<lparr> width := videoWidth v, height := videoHeight v \<rparr>),
      capturedImage := Some (toDataURL e (videoWidth v) (videoHeight v)
        (grain (mathRandom e) (rendered e (filterStyles (selectedMode s)) (videoWidth v) (videoHeight v)))),
      filmCount := filmCount s - 1,
      timers := timers s @ [(150, FlashOff), (300, CapturingOff)],
      trace := trace s @ [ToDataURL (videoWidth v) (videoHeight v)
        (grain (mathRandom e) (rendered e (filterStyles (selectedMode s)) (videoWidth v) (videoHeight v)))] \<rparr>"
  using assms by (simp add: captureClick_def stateOf_def capturePhoto_taken [OF assms(2,3,6,7,4,5)])

lemma captures_run:
  "status (cameraState s) = Active \<Longrightarrow> videoRef s = Some v \<Longrightarrow> canvasRef s = Some c
    \<Longrightarrow> 0 < videoWidth v \<Longrightarrow> 0 < videoHeight v \<Longrightarrow> \<forall>e \<in> set es. getContext e
    \<Longrightarrow> int (length es) \<le> filmCount s
    \<Longrightarrow> \<exists>s' c'. run (map CaptureClick es) s = Some s' \<and> status (cameraState s') = Active
          \<and> videoRef s' = Some v \<and> canvasRef s' = Some c' \<and> selectedMode s' = selectedMode s
          \<and> filmCount s' = filmCount s - int (length es)
          \<and> artifacts s' = artifacts s + length es"
proof (induction es arbitrary: s c)
  case Nil
  then show ?case by simp
next
  case (Cons e es)
  let ?t = "captureClick e s"
  have e: "getContext e" "0 < filmCount s"
    using Cons.prems by auto
  note eq = captureClick_taken [OF Cons.prems(1,2,3,4,5) e(2,1)]
  have t: "status (cameraState ?t) = Active" "videoRef ?t = Some v"
    "canvasRef ?t = Some (c\<lparr> width := videoWidth v, height := videoHeight v \<rparr>)"
    "selectedMode ?t = selectedMode s" "filmCount ?t = filmCount s - 1"
    "artifacts ?t = artifacts s + 1"
    unfolding eq using Cons.prems(1,2) by (simp_all add: artifacts_def)
  have "\<exists>s' c'. run (map CaptureClick es) ?t = Some s' \<and> status (cameraState s') = Active
          \<and> videoRef s' = Some v \<and> canvasRef s' = Some c' \<and> selectedMode s' = selectedMode ?t
          \<and> filmCount s' = filmCount ?t - int (length es)
          \<and> artifacts s' = artifacts ?t + length es"
    using Cons.prems(4,5,6,7) t(5) by (intro Cons.IH [OF t(1,2,3)]) auto
  then show ?case using t(4,5,6) by auto
qed

lemma step_filmCount:
  "step ev s = Some s' \<Longrightarrow> filmCount s' \<le> filmCount s \<and> (0 \<le> filmCount s \<longrightarrow> 0 \<le> filmCount s')"
  by (cases ev)
     (auto simp: startCamera_def catchBlock_def stopCamera_def stopTracks_def
        mediaResolved_def playResolved_def fireTimer_def captureClick_def galleryClick_def
        downloadPhoto_def setSelectedMode_def capturePhoto_def stateOf_def Let_def
        split: option.splits if_splits timer.splits)


lemma active_1x1:
  "run [StartCall None, MediaResolved 0 1, LoadedMetadata 1 1, PlayResolved 0] initial = Some
    (initial\<lparr> cameraState := \<lparr> status = Active, errorText = None \<rparr>,
       videoRef := Some \<lparr> srcObject = Some 0, videoWidth = 1, videoHeight = 1 \<rparr>,
       streamRef := Some 0, streams := (\<lambda>_. [])(0 := [Live]), nextStream := 1,
       calls := [Settled], timers := [(5000, InitTimeout 0)],
       trace := [GetUserMedia 0, VideoPlay],
       statusCalls := [\<lparr> status = Requesting, errorText = None \<rparr>,
         \<lparr> status = Active, errorText = None \<rparr>] \<rparr>)"
  by (simp add: model_defs)

lemma failed_1x1:
  "run [StartCall None, MediaResolved 0 1, LoadedMetadata 1 1, TimerFires 0] initial = Some
    (initial\<lparr> cameraState := \<lparr> status = Error,
          errorText = Some ''Camera error: Camera initialization timed out'' \<rparr>,
       videoRef := Some \<lparr> srcObject = Some 0, videoWidth = 1, videoHeight = 1 \<rparr>,
       streamRef := Some 0, streams := (\<lambda>_. [])(0 := [Live]), nextStream := 1,
       calls := [Settled], timers := [],
       trace := [GetUserMedia 0, VideoPlay,
         ConsoleError (ErrorObj ''Camera initialization timed out'')],
       statusCalls := [\<lparr> status = Requesting, errorText = None \<rparr>,
         \<lparr> status = Error,
           errorText = Some ''Camera error: Camera initialization timed out'' \<rparr>] \<rparr>)"
  by (simp add: model_defs)

text \<open>
  C3.  From a film count of 24, with the camera active, a frame of positive size
  \<open>w\<close> by \<open>h\<close> in the video element and the canvas mounted, under environments
  that give a rendering context: each of 24 successive clicks on the capture button
  lowers the count by exactly one and produces one image, and that image is the
  encoding, by \<open>toDataURL\<close> at size \<open>w\<close> by \<open>h\<close>, of the grained pixels of the
  frame drawn under the filter of the selected mode; it is what \<open>capturedImage\<close>
  holds afterwards, the one call of \<open>toDataURL\<close> the click adds to the trace, and the
  canvas has taken the size of the frame.  After the 24 the count is 0 and 24 more images
  have been encoded; a 25th capture, by the button or by \<open>capturePhoto\<close> itself,
  returns the state unchanged.  No step of any execution raises the film count, and none
  takes it from a non-negative value below 0.
\<close>

theorem film_budget_24:
  assumes "status (cameraState s) = Active" and "filmCount s = 24"
    and "videoRef s = Some v" and "0 < videoWidth v" and "0 < videoHeight v"
    and "canvasRef s = Some c"
    and "length es = 24" and "\<forall>e \<in> set es. getContext e"
  shows "(\<forall>k<24. \<exists>a b. run (map CaptureClick (take k es)) s = Some a
            \<and> step (CaptureClick (es ! k)) a = Some b
            \<and> filmCount a = 24 - int k \<and> filmCount b = filmCount a - 1
            \<and> artifacts b = artifacts a + 1
            \<and> capturedImage b = Some (toDataURL (es ! k) (videoWidth v) (videoHeight v)
                 (grain (mathRandom (es ! k))
                    (rendered (es ! k) (filterStyles (selectedMode s)) (videoWidth v) (videoHeight v))))
            \<and> trace b = trace a @ [ToDataURL (videoWidth v) (videoHeight v)
                 (grain (mathRandom (es ! k))
                    (rendered (es ! k) (filterStyles (selectedMode s)) (videoWidth v) (videoHeight v)))]
            \<and> canvasRef b = Some \<lparr> width = videoWidth v, height = videoHeight v \<rparr>)
     \<and> (\<exists>z. run (map CaptureClick es) s = Some z \<and> filmCount z = 0
            \<and> artifacts z = artifacts s + 24
            \<and> step (CaptureClick e25) z = Some z \<and> capturePhoto e25 z = Returned z)
     \<and> (\<forall>ev t t'. step ev t = Some t' \<longrightarrow>
            filmCount t' \<le> filmCount t \<and> (0 \<le> filmCount t \<longrightarrow> 0 \<le> filmCount t'))"
proof (intro conjI allI impI)
  fix k :: nat assume k: "k < 24"
  let ?img = "grain (mathRandom (es ! k))
    (rendered (es ! k) (filterStyles (selectedMode s)) (videoWidth v) (videoHeight v))"
  have "\<forall>e \<in> set (take k es). getContext e"
    using assms(8) by (meson in_set_takeD)
  moreover have "int (length (take k es)) \<le> filmCount s"
    using assms(2,7) k by simp
  ultimately obtain a c' where a: "run (map CaptureClick (take k es)) s = Some a"
      "status (cameraState a) = Active" "videoRef a = Some v" "canvasRef a = Some c'"
      "selectedMode a = selectedMode s"
      "filmCount a = filmCount s - int (length (take k es))"
    using captures_run [of s v c "take k es"] assms(1,3,4,5,6) by blast
  have fa: "filmCount a = 24 - int k"
    using a(6) assms(2,7) k by simp
  have pos: "0 < filmCount a"
    using fa k by simp
  have ctx: "getContext (es ! k)"
    using assms(7,8) k by simp
  note eq = captureClick_taken [OF a(2,3,4) assms(4,5) pos ctx]
  have "filmCount (captureClick (es ! k) a) = filmCount a - 1"
    "artifacts (captureClick (es ! k) a) = artifacts a + 1"
    "capturedImage (captureClick (es ! k) a) = Some (toDataURL (es ! k) (videoWidth v) (videoHeight v) ?img)"
    "trace (captureClick (es ! k) a) = trace a @ [ToDataURL (videoWidth v) (videoHeight v) ?img]"
    "canvasRef (captureClick (es ! k) a) = Some \<lparr> width = videoWidth v, height = videoHeight v \<rparr>"
    unfolding eq by (simp_all add: artifacts_def a(5))
  then show "\<exists>a b. run (map CaptureClick (take k es)) s = Some a
            \<and> step (CaptureClick (es ! k)) a = Some b
            \<and> filmCount a = 24 - int k \<and> filmCount b = filmCount a - 1
            \<and> artifacts b = artifacts a + 1
            \<and> capturedImage b = Some (toDataURL (es ! k) (videoWidth v) (videoHeight v) ?img)
            \<and> trace b = trace a @ [ToDataURL (videoWidth v) (videoHeight v) ?img]
            \<and> canvasRef b = Some \<lparr> width = videoWidth v, height = videoHeight v \<rparr>"
    using a(1) fa by simp
next
  obtain z where z: "run (map CaptureClick es) s = Some z"
      "filmCount z = filmCount s - int (length es)" "artifacts z = artifacts s + length es"
    using captures_run [of s v c es] assms by auto
  have "filmCount z = 0" using z(2) assms(2,7) by simp
  moreover from this have "step (CaptureClick e25) z = Some z" "capturePhoto e25 z = Returned z"
    by (simp_all add: captureClick_def capturePhoto_guard)
  ultimately show "\<exists>z. run (map CaptureClick es) s = Some z \<and> filmCount z = 0
            \<and> artifacts z = artifacts s + 24
            \<and> step (CaptureClick e25) z = Some z \<and> capturePhoto e25 z = Returned z"
    using z(1,3) assms(7) by simp
next
  fix ev t t' assume "step ev t = Some t'"
  then show "filmCount t' \<le> filmCount t" "0 \<le> filmCount t \<Longrightarrow> 0 \<le> filmCount t'"
    using step_filmCount by blast+
qed

theorem film_budget_24_witness:
  "status (cameraState (the (run [StartCall None, MediaResolved 0 1, LoadedMetadata 1 1, PlayResolved 0] initial))) = Active
   \<and> filmCount (the (run [StartCall None, MediaResolved 0 1, LoadedMetadata 1 1, PlayResolved 0] initial)) = 24
   \<and> videoRef (the (run [StartCall None, MediaResolved 0 1, LoadedMetadata 1 1, PlayResolved 0] initial))
       = Some \<lparr> srcObject = Some 0, videoWidth = 1, videoHeight = 1 \<rparr>
   \<and> getContext sampleEnv
   \<and> capturedImage (the (step (CaptureClick sampleEnv)
        (the (run [StartCall None, MediaResolved 0 1, LoadedMetadata 1 1, PlayResolved 0] initial))))
       = Some ''data:image/jpeg;base64,''
   \<and> filmCount (the (step (CaptureClick sampleEnv)
        (the (run [StartCall None, MediaResolved 0 1, LoadedMetadata 1 1, PlayResolved 0] initial)))) = 23
   \<and> filmCount (the (run (map CaptureClick (replicate 24 sampleEnv))
        (the (run [StartCall None, MediaResolved 0 1, LoadedMetadata 1 1, PlayResolved 0] initial)))) = 0
   \<and> artifacts (the (run (map CaptureClick (replicate 24 sampleEnv))
        (the (run [StartCall None, MediaResolved 0 1, LoadedMetadata 1 1, PlayResolved 0] initial)))) = 24"
proof -
  define s where "s = the (run [StartCall None, MediaResolved 0 1, LoadedMetadata 1 1, PlayResolved 0] initial)"
  define es where "es = replicate 24 sampleEnv"
  define v where "v = \<lparr> srcObject = Some (0::nat), videoWidth = 1, videoHeight = 1 \<rparr>"
  have h: "status (cameraState s) = Active" "filmCount s = 24" "videoRef s = Some v"
    "0 < videoWidth v" "0 < videoHeight v" "canvasRef s = canvasRef initial"
    "artifacts s = 0"
    unfolding s_def v_def active_1x1 option.sel
    by (simp_all add: artifacts_def initial_def)
  obtain c where c: "canvasRef s = Some c"
    using h(6) by (simp add: initial_def)
  have g: "getContext sampleEnv" "toDataURL sampleEnv w h' d = ''data:image/jpeg;base64,''"
    for w h' d
    by (simp_all add: sampleEnv_def)
  have es: "length es = 24" "\<forall>e \<in> set es. getContext e" "es ! 0 = sampleEnv"
    by (simp_all add: es_def g)
  note budget = film_budget_24 [OF h(1,2,3,4,5) c es(1,2)]
  obtain z where z: "run (map CaptureClick es) s = Some z" "filmCount z = 0"
      "artifacts z = artifacts s + 24"
    using budget by blast
  have "0 < (24::nat)" by simp
  from budget [THEN conjunct1, rule_format, OF this]
  obtain a b where ab: "run (map CaptureClick (take 0 es)) s = Some a"
      "step (CaptureClick (es ! 0)) a = Some b" "filmCount a = 24 - int 0"
      "filmCount b = filmCount a - 1"
      "capturedImage b = Some (toDataURL (es ! 0) (videoWidth v) (videoHeight v)
         (grain (mathRandom (es ! 0))
            (rendered (es ! 0) (filterStyles (selectedMode s)) (videoWidth v) (videoHeight v))))"
    by blast
  have "a = s" using ab(1) by simp
  then have first: "capturedImage (the (step (CaptureClick sampleEnv) s)) = Some ''data:image/jpeg;base64,''"
    "filmCount (the (step (CaptureClick sampleEnv) s)) = 23"
    using ab(2,3,4,5) unfolding es(3) g(2) by simp_all
  have r: "filmCount (the (run (map CaptureClick es) s)) = 0"
    "artifacts (the (run (map CaptureClick es) s)) = 24"
    using z h(7) by simp_all
  show ?thesis
    using h(1,2,3) g(1) r first unfolding s_def es_def v_def by blast
qed

text \<open>
  C4.  If the video element or the canvas is missing, or the film count is not
  positive, \<open>capturePhoto\<close> returns the state unchanged (\<open>capturePhoto_guard\<close>).
  When only the rendering context is missing it has already raised the capturing and
  the flash signal and armed the 150 ms timer before it returns, and it never arms the
  300 ms timer that would end the capturing signal.  Shown at the active camera with a
  1 by 1 frame and 24 frames of film left.
\<close>

theorem capturePhoto_context_missing:
  "step (CaptureClick (sampleEnv\<lparr> getContext := False \<rparr>))
      (the (run [StartCall None, MediaResolved 0 1, LoadedMetadata 1 1, PlayResolved 0] initial))
   = Some ((the (run [StartCall None, MediaResolved 0 1, LoadedMetadata 1 1, PlayResolved 0] initial))
       \<lparr> isCapturing := True, showFlash := True,
         timers := [(5000, InitTimeout 0), (150, FlashOff)] \<rparr>)"
  unfolding active_1x1 option.sel
  by (simp add: initial_def captureClick_def capturePhoto_def stateOf_def sampleEnv_def)

lemma capturePhoto_signals_before_context:
  "videoRef s = Some v \<Longrightarrow> canvasRef s = Some c \<Longrightarrow> 0 < filmCount s \<Longrightarrow> \<not> getContext e \<Longrightarrow>
     capturePhoto e s = Returned (s\<lparr> isCapturing := True, showFlash := True,
        timers := timers s @ [(150, FlashOff)] \<rparr>)"
  by (simp add: capturePhoto_def)

text \<open>The same order of effects shows on a video element without a frame: the signals
  are raised before \<open>getImageData\<close> throws.\<close>

lemma capturePhoto_without_frame:
  "capturePhoto sampleEnv initial = Threw ''IndexSizeError''
     (initial\<lparr> isCapturing := True, showFlash := True, timers := [(150, FlashOff)],
        canvasRef := Some \<lparr> width = 0, height = 0 \<rparr> \<rparr>)"
  by (simp add: capturePhoto_def initial_def sampleEnv_def)

text \<open>
  C8.  While the camera status is not \<open>Active\<close> (it is \<open>Idle\<close>, \<open>Requesting\<close> or
  \<open>Error\<close>), a click on the capture button changes nothing: no image is encoded and
  the film count stays.  The button is the only caller of \<open>capturePhoto\<close>.
\<close>

theorem capture_only_when_active:
  "status (cameraState s) \<noteq> Active \<Longrightarrow> step (CaptureClick e) s = Some s"
  by (simp add: captureClick_def)

theorem capture_only_when_active_witness:
  "status (cameraState (the (run [StartCall None, MediaResolved 0 1, LoadedMetadata 1 1, TimerFires 0] initial))) = Error
   \<and> hasFrame (the (run [StartCall None, MediaResolved 0 1, LoadedMetadata 1 1, TimerFires 0] initial))
   \<and> step (CaptureClick sampleEnv)
        (the (run [StartCall None, MediaResolved 0 1, LoadedMetadata 1 1, TimerFires 0] initial))
      = Some (the (run [StartCall None, MediaResolved 0 1, LoadedMetadata 1 1, TimerFires 0] initial))"
  using capture_only_when_active
    [of "the (run [StartCall None, MediaResolved 0 1, LoadedMetadata 1 1, TimerFires 0] initial)" sampleEnv]
  unfolding failed_1x1 option.sel by (simp add: initial_def hasFrame_def)

text \<open>The status is checked by the button alone: \<open>capturePhoto\<close>, called in that state
  of status \<open>Error\<close>, would take the picture.\<close>

lemma capturePhoto_not_gated:
  "filmCount (stateOf (capturePhoto sampleEnv
      (the (run [StartCall None, MediaResolved 0 1, LoadedMetadata 1 1, TimerFires 0] initial)))) = 23"
  unfolding failed_1x1 option.sel
  by (simp add: initial_def capturePhoto_def stateOf_def sampleEnv_def Let_def)

subsection \<open>The grain step\<close>

lemma floor_rat_numeral [simp]:
  "\<lfloor>numeral a / numeral b :: rat\<rfloor> = numeral a div numeral b"
  by (metis floor_divide_of_int_eq of_int_numeral)

lemma floor_rat_neg_numeral [simp]:
  "\<lfloor>- (numeral a / numeral b) :: rat\<rfloor> = - numeral a div numeral b"
  by (metis divide_minus_left floor_divide_of_int_eq of_int_numeral of_int_minus)

lemma pow2_pos: "0 < pow2 e"
  by (simp add: pow2_def)

lemma log2floor_le: "1 \<le> x \<Longrightarrow> 2 ^ log2floor x \<le> x"
proof (induction x rule: log2floor.induct)
  case (1 x)
  show ?case
  proof (cases "x < 2")
    case True
    then show ?thesis using "1.prems" by (subst log2floor.simps) simp
  next
    case False
    then have "2 ^ log2floor (x / 2) \<le> x / 2" using "1.IH" by simp
    then show ?thesis using False by (subst log2floor.simps) simp
  qed
qed

lemma log2floor_less: "1 \<le> x \<Longrightarrow> x < 2 ^ k \<Longrightarrow> log2floor x < k"
proof -
  assume a: "1 \<le> x" "x < 2 ^ k"
  have "(2::rat) ^ log2floor x < 2 ^ k" using log2floor_le [OF a(1)] a(2) by linarith
  then show ?thesis by (simp add: power_strict_increasing_iff)
qed

lemma log2down_pos: "0 < x \<Longrightarrow> x < 1 \<Longrightarrow> 0 < log2down x"
  by (subst log2down.simps) simp

lemma binade_less: "x \<noteq> 0 \<Longrightarrow> \<bar>x\<bar> < 2 ^ k \<Longrightarrow> binade x < int k"
proof (cases "1 \<le> \<bar>x\<bar>")
  case True
  assume "\<bar>x\<bar> < 2 ^ k"
  then show ?thesis using log2floor_less [OF True, of k] True by (simp add: binade_def)
next
  case False
  assume "x \<noteq> 0"
  then have "0 < log2down \<bar>x\<bar>" using False by (intro log2down_pos) simp_all
  then show ?thesis using False by (simp add: binade_def)
qed

lemma binade_neg: "x \<noteq> 0 \<Longrightarrow> \<bar>x\<bar> < 1 \<Longrightarrow> binade x \<le> - 1"
  using log2down_pos [of "\<bar>x\<bar>"] by (simp add: binade_def)

lemma roundHalfEven_le: "z \<le> of_int N \<Longrightarrow> roundHalfEven z \<le> N"
proof -
  assume a: "z \<le> of_int N"
  have f: "of_int \<lfloor>z\<rfloor> \<le> z" "z < of_int \<lfloor>z\<rfloor> + 1" using floor_correct [of z] by simp_all
  have fl: "\<lfloor>z\<rfloor> \<le> N" using a f(1) by (meson of_int_le_iff order_trans)
  show ?thesis
  proof (cases "\<lfloor>z\<rfloor> = N")
    case True
    then have "z = of_int N" using a f(1) by simp
    then show ?thesis by (simp add: roundHalfEven_def)
  next
    case False
    then have "\<lfloor>z\<rfloor> + 1 \<le> N" using fl by simp
    then show ?thesis by (auto simp: roundHalfEven_def Let_def)
  qed
qed

lemma roundHalfEven_ge: "of_int N \<le> z \<Longrightarrow> N \<le> roundHalfEven z"
proof -
  assume "of_int N \<le> z"
  then have "N \<le> \<lfloor>z\<rfloor>" by (simp add: le_floor_iff)
  then show ?thesis by (auto simp: roundHalfEven_def Let_def)
qed

lemma roundHalfEven_near: "\<bar>of_int (roundHalfEven z) - z\<bar> \<le> 1/2"
proof -
  have f: "of_int \<lfloor>z\<rfloor> \<le> z" "z < of_int \<lfloor>z\<rfloor> + 1" using floor_correct [of z] by simp_all
  show ?thesis using f by (auto simp: roundHalfEven_def Let_def abs_le_iff)
qed

lemma roundDouble_bound:
  assumes "\<bar>x\<bar> \<le> m" and "m = of_int N * ulp x"
  shows "\<bar>roundDouble x\<bar> \<le> m"
proof (cases "x = 0")
  case True
  then show ?thesis using assms(1) by (simp add: roundDouble_def)
next
  case False
  have u: "0 < ulp x" by (simp add: ulp_def pow2_pos)
  have "x / ulp x \<le> of_int N" "of_int (- N) \<le> x / ulp x"
    using assms u by (simp_all add: field_simps abs_le_iff)
  then have "roundHalfEven (x / ulp x) \<le> N" "- N \<le> roundHalfEven (x / ulp x)"
    using roundHalfEven_le roundHalfEven_ge by blast+
  then have "\<bar>of_int (roundHalfEven (x / ulp x)) :: rat\<bar> \<le> of_int N"
    by (simp add: abs_le_iff)
  then have "\<bar>of_int (roundHalfEven (x / ulp x)) * ulp x\<bar> \<le> of_int N * ulp x"
    using u by (simp add: abs_mult)
  then show ?thesis using False assms(2) by (simp add: roundDouble_def)
qed

lemma ulp_small:
  assumes "binade x \<le> k" and "k \<le> 52" and "- 1022 \<le> k"
  shows "\<exists>j. ulp x = 1 / 2 ^ j \<and> nat (52 - k) \<le> j"
proof -
  define e where "e = max (binade x) (- 1022)"
  have e: "e \<le> k" using assms(1,3) unfolding e_def by linarith
  show ?thesis
  proof (cases "e - 52 < 0")
    case True
    then have "ulp x = 1 / 2 ^ nat (52 - e)"
      by (simp add: ulp_def pow2_def e_def [symmetric]) 
    moreover have "nat (52 - k) \<le> nat (52 - e)" using e assms(2) by linarith
    ultimately show ?thesis by blast
  next
    case False
    then have "k = 52" "e = 52" using e assms(2) by linarith+
    then have "ulp x = 1 / 2 ^ 0" by (simp add: ulp_def pow2_def e_def [symmetric])
    then show ?thesis using \<open>k = 52\<close> by (intro exI [of _ 0]) simp
  qed
qed

lemma roundDouble_ten: "\<bar>x\<bar> \<le> 10 \<Longrightarrow> \<bar>roundDouble x\<bar> \<le> 10"
proof (cases "x = 0")
  case True then show ?thesis by (simp add: roundDouble_def)
next
  case False
  assume a: "\<bar>x\<bar> \<le> 10"
  then have "\<bar>x\<bar> < 2 ^ 4" by simp
  then have "binade x \<le> 3" using binade_less [OF False, of 4] by simp
  then obtain j where j: "ulp x = 1 / 2 ^ j" using ulp_small [of x 3] by auto
  have "(10::rat) = of_int (10 * 2 ^ j) * ulp x" by (simp add: j)
  then show ?thesis using a by (rule roundDouble_bound [rotated])
qed

lemma roundDouble_half: "\<bar>x\<bar> \<le> 1/2 \<Longrightarrow> \<bar>roundDouble x\<bar> \<le> 1/2"
proof (cases "x = 0")
  case True then show ?thesis by (simp add: roundDouble_def)
next
  case False
  assume a: "\<bar>x\<bar> \<le> 1/2"
  then have "binade x \<le> - 1" using binade_neg [OF False] by simp
  then obtain j where j: "ulp x = 1 / 2 ^ j" "nat (52 - (- 1)) \<le> j" using ulp_small [of x "- 1"] by auto
  then obtain i where i: "j = Suc i" by (cases j) simp_all
  have "(1/2::rat) = of_int (2 ^ i) * ulp x" by (simp add: j i)
  then show ?thesis using a by (rule roundDouble_bound [rotated])
qed

lemma roundDouble_near: "\<bar>roundDouble x - x\<bar> \<le> ulp x / 2"
proof (cases "x = 0")
  case True then show ?thesis by (simp add: roundDouble_def ulp_def less_imp_le [OF pow2_pos])
next
  case False
  have u: "0 < ulp x" by (simp add: ulp_def pow2_pos)
  have "roundDouble x - x = (of_int (roundHalfEven (x / ulp x)) - x / ulp x) * ulp x"
    using False u by (simp add: roundDouble_def field_simps)
  then have "\<bar>roundDouble x - x\<bar> = \<bar>of_int (roundHalfEven (x / ulp x)) - x / ulp x\<bar> * ulp x"
    using u by (simp add: abs_mult)
  also have "\<dots> \<le> 1/2 * ulp x"
    using roundHalfEven_near [of "x / ulp x"] u by (intro mult_right_mono) simp_all
  finally show ?thesis by simp
qed

lemma roundDouble_error:
  assumes "\<bar>x\<bar> < 2 ^ k" and "k \<le> 53"
  shows "\<bar>roundDouble x - x\<bar> \<le> 1 / 2 ^ (54 - k)"
proof (cases "x = 0")
  case True
  then show ?thesis by (simp add: roundDouble_def)
next
  case False
  have "binade x \<le> int k - 1" using binade_less [OF False assms(1)] by simp
  then obtain j where j: "ulp x = 1 / 2 ^ j" "nat (52 - (int k - 1)) \<le> j"
    using ulp_small [of x "int k - 1"] assms(2) by auto
  have "53 - k \<le> j" using j(2) by linarith
  then have "(2::rat) ^ (53 - k) \<le> 2 ^ j" by (simp add: power_increasing)
  then have "ulp x \<le> 1 / 2 ^ (53 - k)" unfolding j(1) by (simp add: field_simps)
  then have "ulp x / 2 \<le> 1 / 2 ^ Suc (53 - k)" by simp
  moreover have "Suc (53 - k) = 54 - k" using assms(2) by simp
  ultimately show ?thesis using roundDouble_near [of x] by simp
qed

lemma noiseOf_range: "0 \<le> r \<Longrightarrow> r < 1 \<Longrightarrow> - 10 \<le> noiseOf r \<and> noiseOf r \<le> 10"
proof -
  assume "0 \<le> r" "r < 1"
  then have "\<bar>r - 1/2\<bar> \<le> 1/2" by linarith
  then have "\<bar>roundDouble (r - 1/2)\<bar> \<le> 1/2" by (rule roundDouble_half)
  then have "\<bar>roundDouble (r - 1/2) * 20\<bar> \<le> 10" by (simp add: abs_mult)
  then have "\<bar>noiseOf r\<bar> \<le> 10" unfolding noiseOf_def by (rule roundDouble_ten)
  then show ?thesis by (simp add: abs_le_iff)
qed

lemma noiseOf_close:
  assumes "0 \<le> r" and "r < 1"
  shows "\<bar>noiseOf r - (r - 1/2) * 20\<bar> \<le> 1 / 2 ^ 48"
proof -
  define a where "a = r - 1/2"
  define b where "b = roundDouble a"
  have a: "\<bar>a\<bar> \<le> 1/2" using assms unfolding a_def by linarith
  have "\<bar>a\<bar> < 2 ^ 0" using a by simp
  then have "\<bar>roundDouble a - a\<bar> \<le> 1 / 2 ^ (54 - 0)" by (rule roundDouble_error) simp
  then have e1: "\<bar>b - a\<bar> \<le> 1 / 2 ^ 54" by (simp add: b_def)
  have "\<bar>b\<bar> \<le> 1/2" unfolding b_def using a by (rule roundDouble_half)
  then have "\<bar>b * 20\<bar> < 2 ^ 4" by (simp add: abs_mult)
  then have "\<bar>roundDouble (b * 20) - b * 20\<bar> \<le> 1 / 2 ^ (54 - 4)"
    by (rule roundDouble_error) simp
  then have e2: "\<bar>roundDouble (b * 20) - b * 20\<bar> \<le> 1 / 2 ^ 50" by simp
  have "roundDouble (b * 20) - a * 20 = (roundDouble (b * 20) - b * 20) + 20 * (b - a)"
    by simp
  then have "\<bar>roundDouble (b * 20) - a * 20\<bar>
      \<le> \<bar>roundDouble (b * 20) - b * 20\<bar> + \<bar>20 * (b - a)\<bar>"
    by (simp only: abs_triangle_ineq)
  moreover have "\<bar>20 * (b - a)\<bar> = 20 * \<bar>b - a\<bar>"
    by (simp only: abs_mult abs_numeral)
  ultimately have "\<bar>roundDouble (b * 20) - a * 20\<bar>
      \<le> \<bar>roundDouble (b * 20) - b * 20\<bar> + 20 * \<bar>b - a\<bar>"
    by (simp only:)
  also have "\<dots> \<le> 1 / 2 ^ 50 + 20 * (1 / 2 ^ 54)"
    using e1 e2 by (intro add_mono mult_left_mono) simp_all
  also have "\<dots> \<le> 1 / 2 ^ 48" by simp
  finally show ?thesis by (simp add: noiseOf_def a_def b_def)
qed

lemma length_addNoise [simp]: "length (addNoise d m x) = length d"
  by (simp add: addNoise_def)

lemma addNoise_nth:
  "addNoise d m x ! j =
     (if j = m \<and> m < length d then toUint8Clamp (roundDouble (of_nat (d ! m) + x)) else d ! j)"
  by (simp add: addNoise_def)

lemma toUint8Clamp_le: "toUint8Clamp x \<le> 255"
proof -
  define c where "c = min (max x 0) 255"
  define f where "f = \<lfloor>c\<rfloor>"
  have c: "0 \<le> c" "c \<le> 255" by (simp_all add: c_def)
  have f: "of_int f \<le> c" "c < of_int f + 1"
    using floor_correct [of c] by (simp_all add: f_def)
  have f0: "0 \<le> f" using c(1) by (simp add: f_def)
  have f255: "f \<le> 255" using c(2) f(1) by (simp add: f_def floor_le_iff) 
  have half: "of_int f + 1/2 \<le> c \<Longrightarrow> f \<le> 254"
  proof -
    assume "of_int f + 1/2 \<le> c"
    then have "(of_int f :: rat) < 255" using c(2) by linarith
    then have "f < 255" by linarith
    then show ?thesis by simp
  qed
  show ?thesis
    unfolding toUint8Clamp_def Let_def c_def [symmetric] f_def [symmetric]
    using f0 f255 half by auto
qed

lemma grainLoop_length: "length (fst (grainLoop rnd k i data)) = length data"
proof (induction rnd k i data rule: grainLoop.induct)
  case (1 rnd k i data)
  show ?case
  proof (cases "i < length data")
    case True
    then show ?thesis
      using "1.IH" [OF True refl] by (subst grainLoop.simps) (simp add: Let_def)
  next
    case False
    then show ?thesis by (subst grainLoop.simps) simp
  qed
qed

lemma grainLoop_unfold:
  "i < length data \<Longrightarrow>
     grainLoop rnd k i data = grainLoop rnd (Suc k) (i + 4)
       (addNoise (addNoise (addNoise data i (noiseOf (rnd k))) (i + 1) (noiseOf (rnd k)))
          (i + 2) (noiseOf (rnd k)))"
  by (subst grainLoop.simps) (simp add: Let_def)

lemma grainLoop_done: "\<not> i < length data \<Longrightarrow> grainLoop rnd k i data = (data, k)"
  by (subst grainLoop.simps) simp

lemma grainLoop_calls: "length data = i + 4 * n \<Longrightarrow> snd (grainLoop rnd k i data) = k + n"
proof (induction rnd k i data arbitrary: n rule: grainLoop.induct)
  case (1 rnd k i data)
  show ?case
  proof (cases n)
    case 0
    then show ?thesis using "1.prems" by (simp add: grainLoop_done)
  next
    case (Suc m)
    then have lt: "i < length data" using "1.prems" by simp
    have "snd (grainLoop rnd (Suc k) (i + 4)
       (addNoise (addNoise (addNoise data i (noiseOf (rnd k))) (i + 1) (noiseOf (rnd k)))
          (i + 2) (noiseOf (rnd k)))) = Suc k + m"
      using "1.prems" Suc by (intro "1.IH" [OF lt refl]) simp
    then show ?thesis using Suc by (simp add: grainLoop_unfold [OF lt])
  qed
qed

lemma grainLoop_below:
  "j < i \<Longrightarrow> j < length data \<Longrightarrow> fst (grainLoop rnd k i data) ! j = data ! j"
proof (induction rnd k i data rule: grainLoop.induct)
  case (1 rnd k i data)
  show ?case
  proof (cases "i < length data")
    case False
    then show ?thesis by (simp add: grainLoop_done)
  next
    case True
    have "fst (grainLoop rnd (Suc k) (i + 4)
       (addNoise (addNoise (addNoise data i (noiseOf (rnd k))) (i + 1) (noiseOf (rnd k)))
          (i + 2) (noiseOf (rnd k)))) ! j
      = addNoise (addNoise (addNoise data i (noiseOf (rnd k))) (i + 1) (noiseOf (rnd k)))
          (i + 2) (noiseOf (rnd k)) ! j"
      using "1.prems" by (intro "1.IH" [OF True refl]) simp_all
    then show ?thesis using "1.prems" by (simp add: grainLoop_unfold [OF True] addNoise_nth)
  qed
qed

lemma grainLoop_pixel:
  "i + 4 * p + c < length data \<Longrightarrow> c < 4 \<Longrightarrow>
     fst (grainLoop rnd k i data) ! (i + 4 * p + c) =
       (if c = 3 then data ! (i + 4 * p + c)
        else toUint8Clamp (roundDouble (of_nat (data ! (i + 4 * p + c)) + noiseOf (rnd (k + p)))))"
proof (induction rnd k i data arbitrary: p rule: grainLoop.induct)
  case (1 rnd k i data)
  have lt: "i < length data" using "1.prems" by simp
  define x where "x = noiseOf (rnd k)"
  define d3 where "d3 = addNoise (addNoise (addNoise data i x) (i + 1) x) (i + 2) x"
  have unf: "grainLoop rnd k i data = grainLoop rnd (Suc k) (i + 4) d3"
    by (simp add: grainLoop_unfold [OF lt] d3_def x_def)
  have len: "length d3 = length data" by (simp add: d3_def)
  show ?case
  proof (cases p)
    case 0
    have "fst (grainLoop rnd (Suc k) (i + 4) d3) ! (i + c) = d3 ! (i + c)"
      using "1.prems" 0 by (intro grainLoop_below) (simp_all add: len)
    moreover have "d3 ! (i + c) =
        (if c = 3 then data ! (i + c) else toUint8Clamp (roundDouble (of_nat (data ! (i + c)) + x)))"
    proof -
      have "c = 0 \<or> c = 1 \<or> c = 2 \<or> c = 3" using "1.prems"(2) by linarith
      then show ?thesis using "1.prems" 0 by (auto simp: d3_def addNoise_nth)
    qed
    ultimately show ?thesis by (simp add: unf 0 x_def)
  next
    case (Suc q)
    have idx: "i + 4 * p + c = i + 4 + 4 * q + c" by (simp add: Suc)
    have kp: "k + p = Suc k + q" by (simp add: Suc)
    have A: "fst (grainLoop rnd (Suc k) (i + 4) d3) ! (i + 4 + 4 * q + c) =
       (if c = 3 then d3 ! (i + 4 + 4 * q + c)
        else toUint8Clamp (roundDouble (of_nat (d3 ! (i + 4 + 4 * q + c)) + noiseOf (rnd (Suc k + q)))))"
      unfolding d3_def x_def
      using "1.prems" by (intro "1.IH" [OF lt refl]) (simp_all add: idx)
    have B: "d3 ! (i + 4 + 4 * q + c) = data ! (i + 4 + 4 * q + c)"
      by (simp add: d3_def addNoise_nth)
    show ?thesis unfolding unf idx kp A B by (rule refl)
  qed
qed


text \<open>
  C5.  On image data of \<open>n\<close> pixels, with every result of \<open>Math.random()\<close> in
  \<open>[0, 1)\<close>: the loop calls \<open>Math.random()\<close> exactly \<open>n\<close> times, once per pixel;
  the red, green and blue bytes of pixel \<open>p\<close> each become the double sum of the byte
  and the one value \<open>noiseOf (rnd p)\<close>, converted by \<open>ToUint8Clamp\<close>, so at most
  255; the alpha byte is the one that was there.  The noise lies in \<open>[-10, 10]\<close> and is
  within \<open>2^(-48)\<close> of \<open>20 r - 10\<close> for the sample \<open>r\<close>, the image of the sample
  under a map that stretches \<open>[0, 1)\<close> evenly over that interval.
\<close>

theorem grain_per_pixel:
  assumes "\<forall>k. 0 \<le> rnd k \<and> rnd k < 1" and "length data = 4 * n" and "p < n"
  shows "grain rnd data ! (4 * p) = toUint8Clamp (roundDouble (of_nat (data ! (4 * p)) + noiseOf (rnd p)))
    \<and> grain rnd data ! (4 * p + 1) = toUint8Clamp (roundDouble (of_nat (data ! (4 * p + 1)) + noiseOf (rnd p)))
    \<and> grain rnd data ! (4 * p + 2) = toUint8Clamp (roundDouble (of_nat (data ! (4 * p + 2)) + noiseOf (rnd p)))
    \<and> grain rnd data ! (4 * p + 3) = data ! (4 * p + 3)
    \<and> - 10 \<le> noiseOf (rnd p) \<and> noiseOf (rnd p) \<le> 10
    \<and> \<bar>noiseOf (rnd p) - (rnd p - 1/2) * 20\<bar> \<le> 1 / 2 ^ 48
    \<and> grain rnd data ! (4 * p) \<le> 255 \<and> grain rnd data ! (4 * p + 1) \<le> 255
    \<and> grain rnd data ! (4 * p + 2) \<le> 255
    \<and> length (grain rnd data) = length data
    \<and> snd (grainLoop rnd 0 0 data) = n"
proof -
  have b: "0 + 4 * p + c < length data" if "c < 4" for c
    using assms(2,3) that by simp
  have px: "fst (grainLoop rnd 0 0 data) ! (0 + 4 * p + c) =
       (if c = 3 then data ! (0 + 4 * p + c)
        else toUint8Clamp (roundDouble (of_nat (data ! (0 + 4 * p + c)) + noiseOf (rnd (0 + p)))))"
    if "c < 4" for c
    using grainLoop_pixel [OF b [OF that] that] .
  have c0: "grain rnd data ! (4 * p) = toUint8Clamp (roundDouble (of_nat (data ! (4 * p)) + noiseOf (rnd p)))"
    using px [of 0] by (simp add: grain_def)
  have c1: "grain rnd data ! (4 * p + 1) = toUint8Clamp (roundDouble (of_nat (data ! (4 * p + 1)) + noiseOf (rnd p)))"
    using px [of 1] by (simp add: grain_def)
  have c2: "grain rnd data ! (4 * p + 2) = toUint8Clamp (roundDouble (of_nat (data ! (4 * p + 2)) + noiseOf (rnd p)))"
    using px [of 2] by (simp add: grain_def)
  have c3: "grain rnd data ! (4 * p + 3) = data ! (4 * p + 3)"
    using px [of 3] by (simp add: grain_def)
  have r: "- 10 \<le> noiseOf (rnd p) \<and> noiseOf (rnd p) \<le> 10"
    "\<bar>noiseOf (rnd p) - (rnd p - 1/2) * 20\<bar> \<le> 1 / 2 ^ 48"
    using assms(1) noiseOf_range noiseOf_close by blast+
  have n: "snd (grainLoop rnd 0 0 data) = n"
    using grainLoop_calls [of data 0 n rnd 0] assms(2) by simp
  show ?thesis
    using c0 c1 c2 c3 r n toUint8Clamp_le
    by (simp add: grain_def grainLoop_length)
qed

text \<open>At the double nearest to 0.525 the sum of 100 and the noise rounds to 100.5, which
  is stored as 100; the byte 0 becomes 1.\<close>

theorem grain_per_pixel_witness:
  "grain (\<lambda>k. 4728779608739021 / 9007199254740992) [100, 100, 0, 255] ! 0 = 100
   \<and> grain (\<lambda>k. 4728779608739021 / 9007199254740992) [100, 100, 0, 255] ! 1 = 100
   \<and> grain (\<lambda>k. 4728779608739021 / 9007199254740992) [100, 100, 0, 255] ! 2 = 1
   \<and> grain (\<lambda>k. 4728779608739021 / 9007199254740992) [100, 100, 0, 255] ! 3 = 255
   \<and> noiseOf (4728779608739021 / 9007199254740992) = 1125899906842625 / 2251799813685248
   \<and> snd (grainLoop (\<lambda>k. 4728779608739021 / 9007199254740992) 0 0 [100, 100, 0, 255]) = 1"
proof -
  have n: "noiseOf (4728779608739021 / 9007199254740992) = 1125899906842625 / 2251799813685248"
    by (simp add: noiseOf_def roundDouble_def ulp_def binade_def pow2_def log2down.simps
        log2floor.simps roundHalfEven_def Let_def)
  have s: "toUint8Clamp (roundDouble (226305881275367425 / 2251799813685248)) = 100"
    "toUint8Clamp (roundDouble (1125899906842625 / 2251799813685248)) = 1"
    by (simp_all add: toUint8Clamp_def roundDouble_def ulp_def binade_def pow2_def
        log2down.simps log2floor.simps roundHalfEven_def Let_def)
  show ?thesis
    using grain_per_pixel [of "\<lambda>k. 4728779608739021 / 9007199254740992"
        "[100, 100, 0, 255]" 1 0]
    by (simp add: n s numeral_2_eq_2)
qed

subsection \<open>One invocation of \<open>startCamera\<close>\<close>

lemma startCamera_fields [simp]:
  "calls (startCamera r s) = calls s @ [case r of None \<Rightarrow> AwaitMedia | Some err \<Rightarrow> Settled]"
  "streamRef (startCamera r s) = None"
  "videoRef (startCamera r s) = map_option (setSrcObject None) (videoRef s)"
  "canvasRef (startCamera r s) = canvasRef s"
  "cameraState (startCamera r s) = (case r of
       None \<Rightarrow> \<lparr> status = Requesting, errorText = None \<rparr>
     | Some err \<Rightarrow> reported (errorMessageOf err))"
  "timers (startCamera r s) = timers s"
  "nextStream (startCamera r s) = nextStream s"
  "filmCount (startCamera r s) = filmCount s"
  "statusCalls (startCamera r s) = statusCalls s @ \<lparr> status = Requesting, errorText = None \<rparr>
     # (case r of None \<Rightarrow> [] | Some err \<Rightarrow> [reported (errorMessageOf err)])"
  by (simp_all add: startCamera_def catchBlock_def stopCamera_def stopTracks_def Let_def
      split: option.splits)

lemma startCamera_trace:
  "trace (startCamera r s) = trace s
     @ (case streamRef s of None \<Rightarrow> []
        | Some sid \<Rightarrow> map (TrackStop sid) [0 ..< length (streams s sid)])
     @ [case r of None \<Rightarrow> GetUserMedia (length (calls s)) | Some err \<Rightarrow> ConsoleError err]"
  by (simp add: startCamera_def catchBlock_def stopCamera_def stopTracks_def Let_def
      split: option.splits)

lemma startCamera_streams:
  "streams (startCamera r s) = (case streamRef s of None \<Rightarrow> streams s
     | Some sid \<Rightarrow> (streams s)(sid := map (\<lambda>_. Ended) (streams s sid)))"
  by (simp add: startCamera_def catchBlock_def stopCamera_def stopTracks_def Let_def
      split: option.splits)

lemma fold_quiet: "(\<And>i. i \<in> set xs \<Longrightarrow> f i s = s) \<Longrightarrow> fold f xs s = s"
  by (induction xs) simp_all

lemma dispatch_last:
  "length (calls s) = Suc n \<Longrightarrow> (\<And>i. i < n \<Longrightarrow> f i s = s) \<Longrightarrow> dispatch f s = f n s"
proof -
  assume len: "length (calls s) = Suc n" and q: "\<And>i. i < n \<Longrightarrow> f i s = s"
  have "fold f [0..<n] s = s" by (rule fold_quiet) (simp add: q)
  then show ?thesis by (simp add: dispatch_def len)
qed


lemma reported_classified:
  "status (reported m) = Error
   \<and> (errorText (reported m) = Some ''Camera access denied. Please allow camera permissions and try again.''
      \<or> errorText (reported m) = Some ''No camera found on this device.''
      \<or> errorText (reported m) = Some (''Camera error: '' @ m))"
  by (simp add: reported_def)










subsection \<open>Serial executions\<close>

lemma quiescent_iff: "quiescent s \<longleftrightarrow> (\<forall>i < length (calls s). calls s ! i = Settled)"
  by (simp add: quiescent_def all_set_conv_all_nth)

lemma pending_is_last:
  "sound s \<Longrightarrow> i < length (calls s) \<Longrightarrow> calls s ! i \<noteq> Settled \<Longrightarrow> Suc i = length (calls s)"
  unfolding sound_def by (metis Suc_lessI)

lemma quiescent_dispatch:
  assumes "quiescent s" and "f = onLoadedMetadata \<or> f = onError"
  shows "dispatch f s = s"
  unfolding dispatch_def
proof (rule fold_quiet)
  fix i assume "i \<in> set [0..<length (calls s)]"
  then have "calls s ! i = Settled" using assms(1) by (simp add: quiescent_iff)
  then show "f i s = s" using assms(2) by (auto simp: onLoadedMetadata_def onError_def awaiting_def)
qed

lemma sound_dispatch:
  assumes "sound s" and "\<not> quiescent s" and "f = onLoadedMetadata \<or> f = onError"
  shows "dispatch f s = f (length (calls s) - 1) s"
proof -
  obtain i where i: "i < length (calls s)" "calls s ! i \<noteq> Settled"
    using assms(2) by (auto simp: quiescent_iff)
  then have len: "length (calls s) = Suc i" using pending_is_last [OF assms(1)] by simp
  have "f j s = s" if "j < i" for j
  proof -
    have "calls s ! j = Settled" using assms(1) that len by (simp add: sound_def)
    then show ?thesis using assms(3) by (auto simp: onLoadedMetadata_def onError_def awaiting_def)
  qed
  then show ?thesis using dispatch_last [OF len] by (simp add: len)
qed

lemma settle_quiescent:
  assumes "sound s" and "i < length (calls s)" and "calls s ! i \<noteq> Settled"
  shows "\<forall>p \<in> set ((calls s)[i := Settled]). p = Settled"
proof -
  have len: "Suc i = length (calls s)" using pending_is_last [OF assms] .
  have "(calls s)[i := Settled] ! j = Settled" if "j < length (calls s)" for j
  proof (cases "j = i")
    case True then show ?thesis using assms(2) by simp
  next
    case False
    then have "Suc j < length (calls s)" using that len by linarith
    then show ?thesis using assms(1) False by (simp add: sound_def)
  qed
  then show ?thesis by (simp add: all_set_conv_all_nth)
qed


lemma stopCamera_fields [simp]:
  "calls (stopCamera s) = calls s"
  "streamRef (stopCamera s) = None"
  "timers (stopCamera s) = timers s"
  by (simp_all add: stopCamera_def stopTracks_def Let_def split: option.splits)

lemma stopCamera_streams:
  "streams (stopCamera s) = (case streamRef s of None \<Rightarrow> streams s
     | Some sid \<Rightarrow> (streams s)(sid := map (\<lambda>_. Ended) (streams s sid)))"
  by (simp add: stopCamera_def stopTracks_def Let_def split: option.splits)

lemma stopCamera_releases:
  "live (stopCamera s) x \<Longrightarrow> live s x \<and> streamRef s \<noteq> Some x"
  by (auto simp: live_def stopCamera_streams split: option.splits if_splits)

lemma startCamera_releases:
  "live (startCamera r s) x \<Longrightarrow> live s x \<and> streamRef s \<noteq> Some x"
  by (auto simp: live_def startCamera_streams split: option.splits if_splits)

lemma sound_startCamera: "sound s \<Longrightarrow> quiescent s \<Longrightarrow> sound (startCamera r s)"
  unfolding sound_def
  by (auto dest!: startCamera_releases simp: nth_append quiescent_iff awaiting_def
      split: option.splits)

lemma sound_stopCamera: "sound s \<Longrightarrow> sound (stopCamera s)"
  unfolding sound_def
  by (auto dest!: stopCamera_releases simp: quiescent_def awaiting_def stopCamera_cameraState)

lemma sound_settle:
  assumes "sound s" and "i < length (calls s)" and "calls s ! i \<noteq> Settled"
    and "calls t = (calls s)[i := Settled]" and "streams t = streams s"
    and "streamRef t = streamRef s"
  shows "sound t"
proof -
  have all: "\<forall>p \<in> set (calls t). p = Settled"
    using settle_quiescent [OF assms(1-3)] assms(4) by simp
  then have nth: "calls t ! j = Settled" if "j < length (calls t)" for j
    using that by (simp add: all_set_conv_all_nth)
  have l: "live t x = live s x" for x by (simp add: live_def assms(5))
  show ?thesis
    unfolding sound_def
  proof (intro conjI allI impI)
    fix sid assume "live t sid"
    then show "streamRef t = Some sid"
      using assms(1,6) l unfolding sound_def by simp
  next
    fix j assume "Suc j < length (calls t)"
    then show "calls t ! j = Settled" using nth [of j] by simp
  next
    fix j assume "awaiting t j AwaitMedia"
    then have False using nth [of j] by (simp add: awaiting_def)
    then show "streamRef t = None" ..
  next
    assume "\<not> quiescent t"
    then have False using all by (simp add: quiescent_def)
    then show "status (cameraState t) = Requesting" ..
  qed
qed

lemma sound_failCall: "sound s \<Longrightarrow> sound (failCall i err s)"
proof (cases "i < length (calls s) \<and> calls s ! i \<noteq> Settled")
  case False
  then show "sound s \<Longrightarrow> sound (failCall i err s)" by (auto simp: failCall_def)
next
  case True
  assume s: "sound s"
  show "sound (failCall i err s)"
    by (rule sound_settle [OF s conjunct1 [OF True] conjunct2 [OF True]])
       (use True in \<open>simp_all add: failCall_def catchBlock_def\<close>)
qed

lemma sound_playResolved:
  assumes "sound s" and "awaiting s i AwaitPlay"
  shows "sound (playResolved i s)"
proof -
  have i: "i < length (calls s)" "calls s ! i \<noteq> Settled"
    using assms(2) by (simp_all add: awaiting_def)
  show ?thesis
    by (rule sound_settle [OF assms(1) i]) (simp_all add: playResolved_def)
qed

lemma sound_mediaResolved:
  assumes "sound s" and "awaiting s i AwaitMedia"
  shows "sound (mediaResolved i n s)"
proof -
  have i: "i < length (calls s)" "calls s ! i = AwaitMedia"
    using assms(2) by (simp_all add: awaiting_def)
  have len: "Suc i = length (calls s)"
    using pending_is_last [OF assms(1) i(1)] i(2) by simp
  have none: "streamRef s = None" using assms unfolding sound_def by blast
  then have dead: "\<not> live s x" for x using assms(1) unfolding sound_def by auto
  have st: "streams (mediaResolved i n s) = (streams s)(nextStream s := replicate n Live)"
    "streamRef (mediaResolved i n s) = Some (nextStream s)"
    "cameraState (mediaResolved i n s) = cameraState s"
    by (simp_all add: mediaResolved_def Let_def failCall_def setSrcObject_def split: option.splits)
  have c: "calls (mediaResolved i n s) = (calls s)[i := Settled]
         \<or> calls (mediaResolved i n s) = (calls s)[i := AwaitReady]"
    by (simp add: mediaResolved_def Let_def failCall_def setSrcObject_def split: option.splits)
  have l: "live (mediaResolved i n s) x \<Longrightarrow> x = nextStream s" for x
    using dead [of x] by (auto simp: live_def st split: if_splits)
  have req: "status (cameraState s) = Requesting"
    using assms(1) i unfolding sound_def quiescent_iff by auto
  have tail: "Suc j < length (calls s) \<Longrightarrow> calls s ! j = Settled" for j
    using assms(1) unfolding sound_def by blast
  show ?thesis
    unfolding sound_def
  proof (intro conjI allI impI)
    fix sid assume "live (mediaResolved i n s) sid"
    then show "streamRef (mediaResolved i n s) = Some sid" using l st(2) by simp
  next
    fix j assume "Suc j < length (calls (mediaResolved i n s))"
    then show "calls (mediaResolved i n s) ! j = Settled"
      using c tail [of j] len by (auto simp: nth_list_update)
  next
    fix j assume "awaiting (mediaResolved i n s) j AwaitMedia"
    then have False
      using c len tail [of j] by (auto simp: awaiting_def nth_list_update split: if_splits)
    then show "streamRef (mediaResolved i n s) = None" ..
  next
    show "status (cameraState (mediaResolved i n s)) = Requesting" using req st(3) by simp
  qed
qed

lemma sound_onLoadedMetadata: "sound s \<Longrightarrow> sound (onLoadedMetadata i s)"
proof (cases "awaiting s i AwaitReady")
  case False
  then show "sound s \<Longrightarrow> sound (onLoadedMetadata i s)" by (simp add: onLoadedMetadata_def)
next
  case True
  assume s: "sound s"
  have i: "i < length (calls s)" "calls s ! i = AwaitReady"
    using True by (simp_all add: awaiting_def)
  have len: "Suc i = length (calls s)" using pending_is_last [OF s i(1)] i(2) by simp
  have req: "status (cameraState s) = Requesting"
    using s i unfolding sound_def quiescent_iff by auto
  have tail: "Suc j < length (calls s) \<Longrightarrow> calls s ! j = Settled" for j
    using s unfolding sound_def by blast
  have eq: "onLoadedMetadata i s
      = s\<lparr> calls := (calls s)[i := AwaitPlay], trace := trace s @ [VideoPlay] \<rparr>"
    using True by (simp add: onLoadedMetadata_def)
  have l: "live (onLoadedMetadata i s) x = live s x" for x
    by (simp add: live_def eq)
  show "sound (onLoadedMetadata i s)"
    unfolding sound_def l
  proof (intro conjI allI impI)
    fix sid assume "live s sid"
    then show "streamRef (onLoadedMetadata i s) = Some sid"
      using s by (simp add: sound_def eq)
  next
    fix j assume "Suc j < length (calls (onLoadedMetadata i s))"
    then have "Suc j < length (calls s)" by (simp add: eq)
    then have "calls s ! j = Settled" "j \<noteq> i" using tail [of j] len by simp_all
    then show "calls (onLoadedMetadata i s) ! j = Settled" by (simp add: eq)
  next
    fix j assume a: "awaiting (onLoadedMetadata i s) j AwaitMedia"
    then have j: "j < length (calls s)" "(calls s)[i := AwaitPlay] ! j = AwaitMedia"
      by (simp_all add: awaiting_def eq)
    have "j \<noteq> i" using j i(1) by auto
    then have "Suc j < length (calls s)" using j(1) len by linarith
    then have "calls s ! j = Settled" by (rule tail)
    then have False using j(2) \<open>j \<noteq> i\<close> by simp
    then show "streamRef (onLoadedMetadata i s) = None" ..
  next
    show "status (cameraState (onLoadedMetadata i s)) = Requesting"
      using req by (simp add: eq)
  qed
qed

lemma sound_onError: "sound s \<Longrightarrow> sound (onError i s)"
  by (simp add: onError_def sound_failCall)

lemma sound_dispatched:
  assumes "sound s" shows "sound (dispatch onLoadedMetadata s)" "sound (dispatch onError s)"
proof -
  show "sound (dispatch onLoadedMetadata s)"
  proof (cases "quiescent s")
    case True then show ?thesis using assms by (simp add: quiescent_dispatch)
  next
    case False then show ?thesis
      using assms by (simp add: sound_dispatch sound_onLoadedMetadata)
  qed
  show "sound (dispatch onError s)"
  proof (cases "quiescent s")
    case True then show ?thesis using assms by (simp add: quiescent_dispatch)
  next
    case False then show ?thesis
      using assms by (simp add: sound_dispatch sound_onError)
  qed
qed

lemma sound_frame:
  "calls t = calls s \<Longrightarrow> streams t = streams s \<Longrightarrow> streamRef t = streamRef s
    \<Longrightarrow> cameraState t = cameraState s \<Longrightarrow> sound t = sound s"
  by (simp add: sound_def live_def awaiting_def quiescent_def)

lemma sound_step:
  assumes "sound s" and "step e s = Some s'" and "isStart e \<longrightarrow> quiescent s"
  shows "sound s'"
proof (cases e)
  case (StartCall r)
  then show ?thesis using assms sound_startCamera by (auto simp: isStart_def)
next
  case StopCall
  then show ?thesis using assms sound_stopCamera by auto
next
  case (MediaResolved i n)
  then show ?thesis using assms sound_mediaResolved by (auto split: if_splits)
next
  case (MediaRejected i err)
  then show ?thesis using assms sound_failCall by (auto split: if_splits)
next
  case (LoadedMetadata w h)
  then obtain v where v: "videoRef s = Some v"
      "s' = dispatch onLoadedMetadata (s\<lparr> videoRef := Some (v\<lparr> videoWidth := w, videoHeight := h \<rparr>) \<rparr>)"
    using assms(2) by (auto split: option.splits if_splits)
  have "sound (s\<lparr> videoRef := Some (v\<lparr> videoWidth := w, videoHeight := h \<rparr>) \<rparr>) = sound s"
    by (rule sound_frame) simp_all
  then have "sound (s\<lparr> videoRef := Some (v\<lparr> videoWidth := w, videoHeight := h \<rparr>) \<rparr>)"
    using assms(1) by simp
  then show ?thesis unfolding v(2) by (rule sound_dispatched)
next
  case VideoError
  then show ?thesis using assms sound_dispatched by (auto split: if_splits)
next
  case (PlayResolved i)
  then show ?thesis using assms sound_playResolved by (auto split: if_splits)
next
  case (PlayRejected i err)
  then show ?thesis using assms sound_failCall by (auto split: if_splits)
next
  case (TimerFires k)
  then have s': "k < length (timers s)"
      "s' = fireTimer (snd (timers s ! k)) (s\<lparr> timers := take k (timers s) @ drop (Suc k) (timers s) \<rparr>)"
    using assms(2) by (auto split: if_splits)
  define t where "t = s\<lparr> timers := take k (timers s) @ drop (Suc k) (timers s) \<rparr>"
  have "sound t = sound s" unfolding t_def by (rule sound_frame) simp_all
  then have a: "sound t" using assms(1) by simp
  have "sound (fireTimer x t)" for x
  proof (cases x)
    case FlashOff
    have "sound (t\<lparr> showFlash := False \<rparr>) = sound t" by (rule sound_frame) simp_all
    then show ?thesis using a FlashOff by (simp add: fireTimer_def)
  next
    case CapturingOff
    have "sound (t\<lparr> isCapturing := False \<rparr>) = sound t" by (rule sound_frame) simp_all
    then show ?thesis using a CapturingOff by (simp add: fireTimer_def)
  next
    case (InitTimeout i)
    then show ?thesis using a by (simp add: fireTimer_def sound_failCall)
  qed
  then show ?thesis unfolding s'(2) t_def by simp
next
  case (CaptureClick env)
  have "sound (captureClick env s) = sound s"
    by (rule sound_frame)
       (simp_all add: captureClick_def capturePhoto_def stateOf_def Let_def split: option.splits)
  then show ?thesis using assms CaptureClick by simp
next
  case (GalleryClick now)
  have "sound (galleryClick now s) = sound s"
    by (rule sound_frame) (simp_all add: galleryClick_def downloadPhoto_def split: option.splits)
  then show ?thesis using assms GalleryClick by simp
next
  case (ModeClick m)
  have "sound (setSelectedMode m s) = sound s"
    by (rule sound_frame) (simp_all add: setSelectedMode_def)
  then show ?thesis using assms ModeClick by simp
qed

lemma serial_sound: "serial s \<Longrightarrow> sound s"
proof (induction rule: serial.induct)
  case serial_initial
  show ?case by (simp add: sound_def initial_def live_def awaiting_def quiescent_def)
next
  case (serial_step s e s')
  then show ?case using sound_step by blast
qed

lemma quiescent_keeps_status:
  assumes "quiescent s" and "step e s = Some s'" and "\<not> isStart e"
  shows "cameraState s' = cameraState s"
proof -
  have n: "\<not> awaiting s i p" if "p \<noteq> Settled" for i p
    using assms(1) that by (auto simp: awaiting_def quiescent_iff)
  have f: "failCall i err t = t" if "calls t = calls s" for i err t
    using assms(1) that by (auto simp: failCall_def quiescent_iff)
  show ?thesis
  proof (cases e)
    case (TimerFires k)
    then show ?thesis using assms(2)
      by (cases "snd (timers s ! k)") (auto simp: fireTimer_def f split: if_splits)
  next
    case (LoadedMetadata w h)
    then show ?thesis using assms(2) by (auto split: option.splits if_splits)
  next
    case VideoError
    then show ?thesis using assms(1,2) by (auto simp: quiescent_dispatch split: if_splits)
  qed (use assms n in \<open>auto simp: isStart_def stopCamera_cameraState captureClick_def capturePhoto_def
        stateOf_def galleryClick_def downloadPhoto_def setSelectedMode_def Let_def
        split: option.splits if_splits\<close>)
qed




lemma serial_runSerial: "serial s \<Longrightarrow> runSerial es s = Some s' \<Longrightarrow> serial s'"
proof (induction es arbitrary: s)
  case Nil
  then show ?case by simp
next
  case (Cons e es)
  from Cons.prems(2) obtain m where m: "step e s = Some m" "runSerial es m = Some s'"
      "isStart e \<longrightarrow> quiescent s"
    by (auto split: if_splits option.splits)
  have "serial m" using Cons.prems(1) m(1,3) by (rule serial_step)
  then show ?case using m(2) by (rule Cons.IH)
qed






subsection \<open>One live stream\<close>

lemma overlap_run:
  "run [StartCall None, StartCall None, MediaResolved 0 1, MediaResolved 1 1] initial = Some
    (initial\<lparr> cameraState := \<lparr> status = Requesting, errorText = None \<rparr>,
       videoRef := Some \<lparr> srcObject = Some 1, videoWidth = 0, videoHeight = 0 \<rparr>,
       streamRef := Some 1, streams := (\<lambda>_. [])(0 := [Live], 1 := [Live]), nextStream := 2,
       calls := [AwaitReady, AwaitReady],
       timers := [(5000, InitTimeout 0), (5000, InitTimeout 1)],
       trace := [GetUserMedia 0, GetUserMedia 1],
       statusCalls := [\<lparr> status = Requesting, errorText = None \<rparr>,
         \<lparr> status = Requesting, errorText = None \<rparr>] \<rparr>)"
  by (simp add: model_defs numeral_2_eq_2)

lemma active_two_tracks:
  "runSerial [StartCall None, MediaResolved 0 2, LoadedMetadata 1 1, PlayResolved 0] initial = Some
    (initial\<lparr> cameraState := \<lparr> status = Active, errorText = None \<rparr>,
       videoRef := Some \<lparr> srcObject = Some 0, videoWidth = 1, videoHeight = 1 \<rparr>,
       streamRef := Some 0, streams := (\<lambda>_. [])(0 := [Live, Live]), nextStream := 1,
       calls := [Settled], timers := [(5000, InitTimeout 0)],
       trace := [GetUserMedia 0, VideoPlay],
       statusCalls := [\<lparr> status = Requesting, errorText = None \<rparr>,
         \<lparr> status = Active, errorText = None \<rparr>] \<rparr>)"
  by (simp add: model_defs isStart_def quiescent_def numeral_2_eq_2)

text \<open>
  C2 (as amended).  Every call of \<open>startCamera\<close> stops each track of the stream held at
  the call and clears \<open>streamRef\<close> before it issues its request: in the trace the
  \<open>stop()\<close> calls on the tracks of the held stream come first and \<open>getUserMedia\<close>
  last (where the expression throws instead, no request is issued and the
  \<open>console.error\<close> of the \<open>catch\<close> block is last), and after the synchronous part
  the stream that was held has no live track.  In every state of an execution in which
  \<open>startCamera\<close> is never called while an earlier invocation is suspended, a stream
  with a live track is the one \<open>streamRef\<close> holds, so at most one stream is live.
\<close>

theorem one_live_stream:
  "step (StartCall r) s = Some (startCamera r s)
   \<and> trace (startCamera r s) = trace s
        @ (case streamRef s of None \<Rightarrow> []
           | Some sid \<Rightarrow> map (TrackStop sid) [0 ..< length (streams s sid)])
        @ [case r of None \<Rightarrow> GetUserMedia (length (calls s)) | Some err \<Rightarrow> ConsoleError err]
   \<and> (\<forall>sid. streamRef s = Some sid \<longrightarrow> \<not> live (startCamera r s) sid)
   \<and> streamRef (startCamera r s) = None
   \<and> (serial s \<longrightarrow> (\<forall>x. live s x \<longrightarrow> streamRef s = Some x)
                   \<and> (\<forall>x y. live s x \<and> live s y \<longrightarrow> x = y))"
proof -
  have "\<forall>x. live s x \<longrightarrow> streamRef s = Some x" if "serial s"
    using serial_sound [OF that] unfolding sound_def by blast
  then have "serial s \<longrightarrow> (\<forall>x. live s x \<longrightarrow> streamRef s = Some x)
                   \<and> (\<forall>x y. live s x \<and> live s y \<longrightarrow> x = y)"
    by (metis option.inject)
  moreover have "\<forall>sid. streamRef s = Some sid \<longrightarrow> \<not> live (startCamera r s) sid"
    using startCamera_releases by blast
  ultimately show ?thesis by (simp add: startCamera_trace)
qed

theorem one_live_stream_witness:
  "serial (the (runSerial [StartCall None, MediaResolved 0 2, LoadedMetadata 1 1, PlayResolved 0] initial))
   \<and> live (the (runSerial [StartCall None, MediaResolved 0 2, LoadedMetadata 1 1, PlayResolved 0] initial)) 0
   \<and> streamRef (the (runSerial [StartCall None, MediaResolved 0 2, LoadedMetadata 1 1, PlayResolved 0] initial)) = Some 0
   \<and> trace (startCamera None (the (runSerial [StartCall None, MediaResolved 0 2, LoadedMetadata 1 1, PlayResolved 0] initial)))
        = [GetUserMedia 0, VideoPlay, TrackStop 0 0, TrackStop 0 1, GetUserMedia 1]
   \<and> \<not> live (startCamera None (the (runSerial [StartCall None, MediaResolved 0 2, LoadedMetadata 1 1, PlayResolved 0] initial))) 0"
proof -
  define s where "s = the (runSerial [StartCall None, MediaResolved 0 2, LoadedMetadata 1 1, PlayResolved 0] initial)"
  have rs: "runSerial [StartCall None, MediaResolved 0 2, LoadedMetadata 1 1, PlayResolved 0] initial = Some s"
    unfolding s_def active_two_tracks by simp
  have ser: "serial s"
    by (rule serial_runSerial [OF serial_initial rs])
  have f: "streamRef s = Some 0" "live s 0" "trace s = [GetUserMedia 0, VideoPlay]"
    "streams s 0 = [Live, Live]" "calls s = [Settled]"
    unfolding s_def active_two_tracks option.sel by (simp_all add: initial_def live_def)
  have t: "trace (startCamera None s) = trace s
        @ (case streamRef s of None \<Rightarrow> []
           | Some sid \<Rightarrow> map (TrackStop sid) [0 ..< length (streams s sid)])
        @ [case None of None \<Rightarrow> GetUserMedia (length (calls s)) | Some err \<Rightarrow> ConsoleError err]"
    "\<not> live (startCamera None s) 0"
    using one_live_stream [of None s] f(1) by blast+
  have "trace (startCamera None s) = [GetUserMedia 0, VideoPlay, TrackStop 0 0, TrackStop 0 1, GetUserMedia 1]"
    unfolding t(1) by (simp add: f upt_rec)
  then show ?thesis using ser f(1,2) t(2) unfolding s_def by blast
qed

text \<open>When a second invocation starts while the first still waits for its stream, both
  streams end up live, and only the second is held.\<close>

theorem overlapping_starts_two_live:
  "live (the (run [StartCall None, StartCall None, MediaResolved 0 1, MediaResolved 1 1] initial)) 0
   \<and> live (the (run [StartCall None, StartCall None, MediaResolved 0 1, MediaResolved 1 1] initial)) 1
   \<and> streamRef (the (run [StartCall None, StartCall None, MediaResolved 0 1, MediaResolved 1 1] initial))
       = Some 1"
  unfolding overlap_run option.sel by (simp add: initial_def live_def)

subsection \<open>The status passes through \<open>Requesting\<close>\<close>

lemma awaiting_play_run:
  "runSerial [StartCall None, MediaResolved 0 1, LoadedMetadata 1 1] initial = Some
    (initial\<lparr> cameraState := \<lparr> status = Requesting, errorText = None \<rparr>,
       videoRef := Some \<lparr> srcObject = Some 0, videoWidth = 1, videoHeight = 1 \<rparr>,
       streamRef := Some 0, streams := (\<lambda>_. [])(0 := [Live]), nextStream := 1,
       calls := [AwaitPlay], timers := [(5000, InitTimeout 0)],
       trace := [GetUserMedia 0, VideoPlay],
       statusCalls := [\<lparr> status = Requesting, errorText = None \<rparr>] \<rparr>)"
  by (simp add: model_defs isStart_def quiescent_def)

lemma overlap_active_run:
  "run [StartCall None, StartCall None, MediaResolved 0 1, LoadedMetadata 640 480, PlayResolved 0] initial
    = Some
    (initial\<lparr> cameraState := \<lparr> status = Active, errorText = None \<rparr>,
       videoRef := Some \<lparr> srcObject = Some 0, videoWidth = 640, videoHeight = 480 \<rparr>,
       streamRef := Some 0, streams := (\<lambda>_. [])(0 := [Live]), nextStream := 1,
       calls := [Settled, AwaitMedia], timers := [(5000, InitTimeout 0)],
       trace := [GetUserMedia 0, GetUserMedia 1, VideoPlay],
       statusCalls := [\<lparr> status = Requesting, errorText = None \<rparr>,
         \<lparr> status = Requesting, errorText = None \<rparr>,
         \<lparr> status = Active, errorText = None \<rparr>] \<rparr>)"
  by (simp add: model_defs numeral_2_eq_2)

lemma log_refl:
  "\<exists>xs. statusCalls s = statusCalls s @ xs \<and> cameraState s = last (cameraState s # xs)"
  by (rule exI [of _ "[]"]) simp

lemma log_frame:
  "statusCalls t = statusCalls s \<Longrightarrow> cameraState t = cameraState s
    \<Longrightarrow> \<exists>xs. statusCalls t = statusCalls s @ xs \<and> cameraState t = last (cameraState s # xs)"
  by (rule exI [of _ "[]"]) simp

lemma log_trans:
  assumes "\<exists>xs. statusCalls b = statusCalls a @ xs \<and> cameraState b = last (cameraState a # xs)"
    and "\<exists>ys. statusCalls c = statusCalls b @ ys \<and> cameraState c = last (cameraState b # ys)"
  shows "\<exists>zs. statusCalls c = statusCalls a @ zs \<and> cameraState c = last (cameraState a # zs)"
proof -
  obtain xs where xs: "statusCalls b = statusCalls a @ xs" "cameraState b = last (cameraState a # xs)"
    using assms(1) by blast
  obtain ys where ys: "statusCalls c = statusCalls b @ ys" "cameraState c = last (cameraState b # ys)"
    using assms(2) by blast
  have "statusCalls c = statusCalls a @ (xs @ ys)" using xs(1) ys(1) by simp
  moreover have "cameraState c = last (cameraState a # (xs @ ys))"
    using xs(2) ys(2) by (cases ys) simp_all
  ultimately show ?thesis by blast
qed

lemma log_failCall:
  "\<exists>xs. statusCalls (failCall i err s) = statusCalls s @ xs
     \<and> cameraState (failCall i err s) = last (cameraState s # xs)"
proof (cases "i < length (calls s) \<and> calls s ! i \<noteq> Settled")
  case True
  then show ?thesis
    by (intro exI [of _ "[reported (errorMessageOf err)]"]) (simp add: failCall_def catchBlock_def)
next
  case False
  then have "failCall i err s = s" by (auto simp: failCall_def)
  then show ?thesis by (simp add: log_refl)
qed

lemma log_fold:
  assumes "\<And>i t. \<exists>xs. statusCalls (f i t) = statusCalls t @ xs
      \<and> cameraState (f i t) = last (cameraState t # xs)"
  shows "\<exists>xs. statusCalls (fold f js s) = statusCalls s @ xs
      \<and> cameraState (fold f js s) = last (cameraState s # xs)"
proof (induction js arbitrary: s)
  case Nil
  show ?case by (simp add: log_refl)
next
  case (Cons j js)
  show ?case
    unfolding fold_simps by (rule log_trans [OF assms [of j s] Cons.IH [of "f j s"]])
qed

lemma log_dispatch:
  "\<exists>xs. statusCalls (dispatch onLoadedMetadata s) = statusCalls s @ xs
      \<and> cameraState (dispatch onLoadedMetadata s) = last (cameraState s # xs)"
  "\<exists>xs. statusCalls (dispatch onError s) = statusCalls s @ xs
      \<and> cameraState (dispatch onError s) = last (cameraState s # xs)"
proof -
  show "\<exists>xs. statusCalls (dispatch onLoadedMetadata s) = statusCalls s @ xs
      \<and> cameraState (dispatch onLoadedMetadata s) = last (cameraState s # xs)"
    unfolding dispatch_def
    by (rule log_fold) (rule log_frame, simp_all add: onLoadedMetadata_def)
  show "\<exists>xs. statusCalls (dispatch onError s) = statusCalls s @ xs
      \<and> cameraState (dispatch onError s) = last (cameraState s # xs)"
    unfolding dispatch_def
  proof (rule log_fold)
    fix i t
    show "\<exists>xs. statusCalls (onError i t) = statusCalls t @ xs
        \<and> cameraState (onError i t) = last (cameraState t # xs)"
      by (cases "awaiting t i AwaitReady")
         (simp_all only: onError_def if_True if_False log_failCall log_refl)
  qed
qed

lemma step_setter_log:
  assumes "step e s = Some s'"
  shows "\<exists>xs. statusCalls s' = statusCalls s @ xs \<and> cameraState s' = last (cameraState s # xs)"
proof (cases e)
  case (StartCall r)
  then have s': "s' = startCamera r s" using assms by simp
  show ?thesis unfolding s'
    by (rule exI [of _ "\<lparr> status = Requesting, errorText = None \<rparr>
          # (case r of None \<Rightarrow> [] | Some x \<Rightarrow> [reported (errorMessageOf x)])"])
       (simp split: option.splits)
next
  case StopCall
  then have s': "s' = stopCamera s" using assms by simp
  show ?thesis unfolding s'
    by (rule log_frame)
       (simp_all add: stopCamera_def stopTracks_def Let_def split: option.splits)
next
  case (MediaResolved i n)
  then have s': "s' = mediaResolved i n s" using assms by (simp split: if_splits)
  show ?thesis unfolding s'
    by (rule log_frame)
       (simp_all add: mediaResolved_def setSrcObject_def Let_def split: option.splits)
next
  case (MediaRejected i err)
  then have s': "s' = failCall i err s" using assms by (simp split: if_splits)
  show ?thesis unfolding s' by (rule log_failCall)
next
  case (LoadedMetadata w h)
  then obtain v where v: "videoRef s = Some v"
      "s' = dispatch onLoadedMetadata (s\<lparr> videoRef := Some (v\<lparr> videoWidth := w, videoHeight := h \<rparr>) \<rparr>)"
    using assms by (auto split: option.splits if_splits)
  show ?thesis
    using log_dispatch(1) [of "s\<lparr> videoRef := Some (v\<lparr> videoWidth := w, videoHeight := h \<rparr>) \<rparr>"]
    unfolding v(2) by simp
next
  case VideoError
  then have s': "s' = dispatch onError s" using assms by (simp split: if_splits)
  show ?thesis unfolding s' by (rule log_dispatch)
next
  case (PlayResolved i)
  then have s': "s' = playResolved i s" using assms by (simp split: if_splits)
  show ?thesis unfolding s'
    by (rule exI [of _ "[\<lparr> status = Active, errorText = None \<rparr>]"]) (simp add: playResolved_def)
next
  case (PlayRejected i err)
  then have s': "s' = failCall i err s" using assms by (simp split: if_splits)
  show ?thesis unfolding s' by (rule log_failCall)
next
  case (TimerFires k)
  then have s': "s' = fireTimer (snd (timers s ! k))
      (s\<lparr> timers := take k (timers s) @ drop (Suc k) (timers s) \<rparr>)"
    using assms by (simp split: if_splits)
  define t where "t = s\<lparr> timers := take k (timers s) @ drop (Suc k) (timers s) \<rparr>"
  have t: "statusCalls t = statusCalls s" "cameraState t = cameraState s"
    by (simp_all add: t_def)
  have "\<exists>xs. statusCalls (fireTimer x t) = statusCalls t @ xs
      \<and> cameraState (fireTimer x t) = last (cameraState t # xs)" for x
  proof (cases x)
    case FlashOff
    show ?thesis unfolding FlashOff by (rule log_frame) (simp_all add: fireTimer_def)
  next
    case CapturingOff
    show ?thesis unfolding CapturingOff by (rule log_frame) (simp_all add: fireTimer_def)
  next
    case (InitTimeout i)
    have "fireTimer (InitTimeout i) t
        = failCall i (ErrorObj ''Camera initialization timed out'') t"
      by (simp add: fireTimer_def)
    then show ?thesis unfolding InitTimeout by (simp only: log_failCall)
  qed
  then show ?thesis unfolding s' t_def [symmetric] t .
next
  case (CaptureClick env)
  then have s': "s' = captureClick env s" using assms by simp
  show ?thesis unfolding s'
    by (rule log_frame)
       (simp_all add: captureClick_def capturePhoto_def stateOf_def Let_def split: option.splits)
next
  case (GalleryClick now)
  then have s': "s' = galleryClick now s" using assms by simp
  show ?thesis unfolding s'
    by (rule log_frame) (simp_all add: galleryClick_def downloadPhoto_def split: option.splits)
next
  case (ModeClick m)
  then have s': "s' = setSelectedMode m s" using assms by simp
  show ?thesis unfolding s'
    by (rule log_frame) (simp_all add: setSelectedMode_def)
qed

text \<open>
  C6 (as amended).  Every call of \<open>startCamera\<close> calls \<open>setCameraState\<close> with
  \<open>Requesting\<close> first; where the request is issued, \<open>Requesting\<close> is the status
  the call leaves.  Where evaluating \<open>navigator.mediaDevices.getUserMedia\<close> throws,
  the \<open>catch\<close> block sets \<open>Error\<close> in the same turn, so the status the call leaves
  is \<open>Error\<close>, whatever it was before, and \<open>Requesting\<close> is never committed.
  Every step only adds to the sequence of \<open>setCameraState\<close> calls, and the status it
  leaves is the argument of the last call it added, or the status before if it added
  none.  While no invocation is suspended, nothing but a call of \<open>startCamera\<close>
  changes the camera status.  In an execution in which \<open>startCamera\<close> is never called
  while an earlier invocation is suspended, every step that changes the camera status to
  \<open>Active\<close> or \<open>Error\<close> starts from the status \<open>Requesting\<close>, unless it is a
  call of \<open>startCamera\<close> in which that expression throws.
\<close>

theorem status_passes_requesting:
  "step (StartCall r) s = Some (startCamera r s)
   \<and> statusCalls (startCamera r s) = statusCalls s @ \<lparr> status = Requesting, errorText = None \<rparr>
        # (case r of None \<Rightarrow> [] | Some x \<Rightarrow> [reported (errorMessageOf x)])
   \<and> status (cameraState (startCamera None s)) = Requesting
   \<and> cameraState (startCamera (Some err) s) = reported (errorMessageOf err)
   \<and> status (cameraState (startCamera (Some err) s)) = Error
   \<and> (step e s = Some s' \<longrightarrow>
        (\<exists>xs. statusCalls s' = statusCalls s @ xs \<and> cameraState s' = last (cameraState s # xs)))
   \<and> (quiescent s \<and> \<not> isStart e \<and> step e s = Some s' \<longrightarrow> cameraState s' = cameraState s)
   \<and> (serial s \<and> (isStart e \<longrightarrow> quiescent s) \<and> step e s = Some s'
        \<and> cameraState s' \<noteq> cameraState s
        \<and> (status (cameraState s') = Active \<or> status (cameraState s') = Error)
      \<longrightarrow> status (cameraState s) = Requesting \<or> (\<exists>x. e = StartCall (Some x)))"
proof -
  have c1: "step (StartCall r) s = Some (startCamera r s)"
    by simp
  have c2: "statusCalls (startCamera r s) = statusCalls s @ \<lparr> status = Requesting, errorText = None \<rparr>
        # (case r of None \<Rightarrow> [] | Some x \<Rightarrow> [reported (errorMessageOf x)])"
    by (rule startCamera_fields)
  have c3: "status (cameraState (startCamera None s)) = Requesting"
    by simp
  have c4: "cameraState (startCamera (Some err) s) = reported (errorMessageOf err)"
    by simp
  have c5: "status (cameraState (startCamera (Some err) s)) = Error"
    using reported_classified [of "errorMessageOf err"] by simp
  have c6: "step e s = Some s' \<longrightarrow>
        (\<exists>xs. statusCalls s' = statusCalls s @ xs \<and> cameraState s' = last (cameraState s # xs))"
    using step_setter_log by blast
  have c7: "quiescent s \<and> \<not> isStart e \<and> step e s = Some s' \<longrightarrow> cameraState s' = cameraState s"
    using quiescent_keeps_status by blast
  have b: "status (cameraState s) = Requesting \<or> (\<exists>x. e = StartCall (Some x))"
    if "serial s" "step e s = Some s'" "cameraState s' \<noteq> cameraState s"
      "status (cameraState s') = Active \<or> status (cameraState s') = Error"
  proof (cases "isStart e")
    case True
    then obtain r' where e: "e = StartCall r'"
      by (cases e) (simp_all add: isStart_def)
    have "r' \<noteq> None"
      using that(2,4) unfolding e by (auto split: option.splits)
    then show ?thesis using e by auto
  next
    case False
    then have "\<not> quiescent s" using that(2,3) quiescent_keeps_status by blast
    then show ?thesis using serial_sound [OF that(1)] unfolding sound_def by blast
  qed
  have c8: "serial s \<and> (isStart e \<longrightarrow> quiescent s) \<and> step e s = Some s'
        \<and> cameraState s' \<noteq> cameraState s
        \<and> (status (cameraState s') = Active \<or> status (cameraState s') = Error)
      \<longrightarrow> status (cameraState s) = Requesting \<or> (\<exists>x. e = StartCall (Some x))"
    using b by blast
  show ?thesis
    by (intro conjI) (fact c1, fact c2, fact c3, fact c4, fact c5, fact c6, fact c7, fact c8)
qed

theorem status_passes_requesting_witness:
  "serial (the (runSerial [StartCall None, MediaResolved 0 1, LoadedMetadata 1 1] initial))
   \<and> status (cameraState (the (step (PlayResolved 0)
        (the (runSerial [StartCall None, MediaResolved 0 1, LoadedMetadata 1 1] initial))))) = Active
   \<and> status (cameraState (the (runSerial [StartCall None, MediaResolved 0 1, LoadedMetadata 1 1] initial)))
       = Requesting"
proof -
  define s where "s = the (runSerial [StartCall None, MediaResolved 0 1, LoadedMetadata 1 1] initial)"
  define s' where "s' = the (step (PlayResolved 0) s)"
  have rs: "runSerial [StartCall None, MediaResolved 0 1, LoadedMetadata 1 1] initial = Some s"
    unfolding s_def awaiting_play_run by simp
  have ser: "serial s"
    by (rule serial_runSerial [OF serial_initial rs])
  have st: "step (PlayResolved 0) s = Some s'" "status (cameraState s') = Active"
    "cameraState s' \<noteq> cameraState s"
    unfolding s'_def s_def awaiting_play_run option.sel
    by (simp_all add: initial_def awaiting_def playResolved_def)
  have "status (cameraState s) = Requesting"
    using status_passes_requesting [of _ s _ "PlayResolved 0" s'] ser st
    by (simp only: isStart_def event.case) blast
  then show ?thesis using ser st(2) unfolding s'_def s_def by blast
qed

text \<open>With two invocations in flight, the first can reach \<open>Active\<close> and the rejection
  of the second then takes the status from \<open>Active\<close> to \<open>Error\<close>.\<close>

theorem overlapping_starts_active_to_error:
  "status (cameraState (the (run [StartCall None, StartCall None, MediaResolved 0 1,
        LoadedMetadata 640 480, PlayResolved 0] initial))) = Active
   \<and> step (MediaRejected 1 (ErrorObj ''NotReadableError''))
        (the (run [StartCall None, StartCall None, MediaResolved 0 1,
           LoadedMetadata 640 480, PlayResolved 0] initial)) \<noteq> None
   \<and> status (cameraState (the (step (MediaRejected 1 (ErrorObj ''NotReadableError''))
        (the (run [StartCall None, StartCall None, MediaResolved 0 1,
           LoadedMetadata 640 480, PlayResolved 0] initial))))) = Error"
  unfolding overlap_active_run option.sel
  by (simp add: initial_def awaiting_def failCall_def catchBlock_def reported_def
      errorMessageOf_def)

text \<open>Where \<open>navigator.mediaDevices\<close> is missing, the first call of \<open>startCamera\<close>
  takes the status from \<open>Idle\<close> to \<open>Error\<close> in one step, with both calls of
  \<open>setCameraState\<close> made in it and no request issued.\<close>

lemma synchronous_throw_idle_to_error:
  "status (cameraState initial) = Idle
   \<and> serial (startCamera (Some (ErrorObj ''navigator.mediaDevices is undefined'')) initial)
   \<and> cameraState (startCamera (Some (ErrorObj ''navigator.mediaDevices is undefined'')) initial)
       = \<lparr> status = Error,
           errorText = Some ''Camera error: navigator.mediaDevices is undefined'' \<rparr>
   \<and> statusCalls (startCamera (Some (ErrorObj ''navigator.mediaDevices is undefined'')) initial)
       = [\<lparr> status = Requesting, errorText = None \<rparr>,
          \<lparr> status = Error,
            errorText = Some ''Camera error: navigator.mediaDevices is undefined'' \<rparr>]
   \<and> trace (startCamera (Some (ErrorObj ''navigator.mediaDevices is undefined'')) initial)
       = [ConsoleError (ErrorObj ''navigator.mediaDevices is undefined'')]"
proof -
  have q: "isStart (StartCall (Some (ErrorObj ''navigator.mediaDevices is undefined'')))
      \<longrightarrow> quiescent initial"
    by (simp add: quiescent_def initial_def)
  have "serial (startCamera (Some (ErrorObj ''navigator.mediaDevices is undefined'')) initial)"
    by (rule serial_step [OF serial_initial _ q]) simp
  moreover have "reported (errorMessageOf (ErrorObj ''navigator.mediaDevices is undefined''))
      = \<lparr> status = Error,
          errorText = Some ''Camera error: navigator.mediaDevices is undefined'' \<rparr>"
    by (simp add: reported_def errorMessageOf_def)
  ultimately show ?thesis
    by (simp add: startCamera_trace) (simp add: initial_def)
qed

end
